theory Spec2Isabelle
  imports Main "HOL-Library.Word" "HOL-Library.AList"
begin

unbundle bit_operations_syntax

section \<open>Consistent hashing with virtual nodes (consistent-hashing/main.go)\<close>

text \<open>
  The Go program keeps one \<open>ConsistentHashing\<close> value: the sorted slice \<open>ring\<close> of
  virtual-node positions, the map \<open>hashMap\<close> from a position to the name of its physical
  node, the map \<open>nodes\<close> from a node name to that node's key/value store, and the number
  \<open>vnodes\<close> of virtual nodes per physical node.

  Go maps are modelled as association lists with pairwise distinct keys; a \<open>range\<close> loop
  over a map visits the entries in list order. Go leaves that order unspecified, so the
  theorems below quantify over every association list, that is over every order.
  A write to an entry of a nil map panics in Go; the panic is the \<open>Inl\<close> branch of the
  result.
\<close>

subsection \<open>hash/crc32: ChecksumIEEE\<close>

text \<open>
  \<open>crc32.ChecksumIEEE\<close> belongs to the Go standard library. It is the reflected CRC-32
  with polynomial \<open>0xEDB88320\<close>, initial value and final complement \<open>0xFFFFFFFF\<close>,
  computed here bit by bit.
\<close>

definition update_bit :: "32 word \<Rightarrow> 32 word" where
  "update_bit c = (if bit c 0 then drop_bit 1 c XOR 0xEDB88320 else drop_bit 1 c)"

definition update_byte :: "32 word \<Rightarrow> char \<Rightarrow> 32 word" where
  "update_byte c b =
     update_bit (update_bit (update_bit (update_bit
       (update_bit (update_bit (update_bit (update_bit (c XOR of_char b))))))))"

definition ChecksumIEEE :: "string \<Rightarrow> 32 word" where
  "ChecksumIEEE bs = NOT (foldl update_byte (NOT 0) bs)"

definition hashKey :: "string \<Rightarrow> 32 word" where
  "hashKey key = ChecksumIEEE key"

subsection \<open>fmt.Sprintf("%s#%d", nodeName, i)\<close>

fun itoa :: "nat \<Rightarrow> string" where
  "itoa n =
     (if n < 10 then [''0123456789'' ! n]
      else itoa (n div 10) @ [''0123456789'' ! (n mod 10)])"

declare itoa.simps [simp del]

definition vnodeKey :: "string \<Rightarrow> nat \<Rightarrow> string" where
  "vnodeKey nodeName i = nodeName @ ''#'' @ itoa i"

subsection \<open>The cluster state\<close>

type_synonym store = "(string \<times> string) list"

type_synonym cluster = "(string \<times> store) list"

record ConsistentHashing =
  ring :: "32 word list"
  hashMap :: "(32 word \<times> string) list"
  nodes :: cluster
  vnodes :: int

datatype error =
    EmptyRing            \<comment> \<open>\<open>fmt.Errorf("no nodes in the ring")\<close>\<close>
  | NodeNotFound string  \<comment> \<open>\<open>fmt.Errorf("node '%s' not found", nodeName)\<close>\<close>

datatype panic =
    NilMapWrite          \<comment> \<open>runtime panic: assignment to entry in nil map\<close>

text \<open>What \<open>AddNode\<close> prints: it has no return value, its report goes to standard output.\<close>

datatype printed =
    NodeAlreadyExists string                \<comment> \<open>\<open>"! Node '%s' already exists."\<close>\<close>
  | MoveReport nat "(string \<times> nat) list"    \<comment> \<open>records moved, and the count per source\<close>

definition NewConsistentHashing :: "int \<Rightarrow> ConsistentHashing" where
  "NewConsistentHashing vn = \<lparr>ring = [], hashMap = [], nodes = [], vnodes = vn\<rparr>"

subsection \<open>Map primitives\<close>

text \<open>\<open>m[k]\<close> on a \<open>map[_]string\<close>: the zero value \<open>""\<close> when the key is absent.\<close>

definition index_str :: "('k \<times> string) list \<Rightarrow> 'k \<Rightarrow> string" where
  "index_str m k = (case map_of m k of None \<Rightarrow> [] | Some v \<Rightarrow> v)"

text \<open>\<open>m[k]\<close> on a map of slices: the nil slice when the key is absent.\<close>

definition index_list :: "('k \<times> 'a list) list \<Rightarrow> 'k \<Rightarrow> 'a list" where
  "index_list m k = (case map_of m k of None \<Rightarrow> [] | Some v \<Rightarrow> v)"

text \<open>\<open>ch.nodes[n][key]\<close>: reading a nil inner map gives the zero value.\<close>

definition get_record :: "cluster \<Rightarrow> string \<Rightarrow> string \<Rightarrow> string" where
  "get_record ns n key = (case map_of ns n of None \<Rightarrow> [] | Some d \<Rightarrow> index_str d key)"

text \<open>\<open>ch.nodes[n][key] = value\<close>: panics when \<open>ch.nodes[n]\<close> is nil.\<close>

definition put_record :: "string \<Rightarrow> string \<Rightarrow> string \<Rightarrow> cluster \<Rightarrow> panic + cluster" where
  "put_record n key val ns =
     (case map_of ns n of
        None \<Rightarrow> Inl NilMapWrite
      | Some d \<Rightarrow> Inr (AList.update n (AList.update key val d) ns))"

text \<open>\<open>delete(ch.nodes[n], key)\<close>: deleting from a nil map does nothing.\<close>

definition delete_record :: "string \<Rightarrow> string \<Rightarrow> cluster \<Rightarrow> cluster" where
  "delete_record n key ns =
     (case map_of ns n of
        None \<Rightarrow> ns
      | Some d \<Rightarrow> AList.update n (AList.delete key d) ns)"

text \<open>A \<open>for ... range\<close> loop whose body may panic: the first panic ends the loop.\<close>

fun for_each :: "('a \<Rightarrow> 's \<Rightarrow> panic + 's) \<Rightarrow> 'a list \<Rightarrow> 's \<Rightarrow> panic + 's" where
  "for_each body [] s = Inr s"
| "for_each body (x # xs) s =
     (case body x s of Inl p \<Rightarrow> Inl p | Inr s' \<Rightarrow> for_each body xs s')"

subsection \<open>sort.Search and GetNode\<close>

text \<open>
  \<open>sort.Search(n, f)\<close> of the Go standard library: binary search for the smallest index
  in \<open>[0, n)\<close> at which \<open>f\<close> holds, \<open>n\<close> if there is none; \<open>search_loop\<close> is its loop
  \<open>for i < j { h := (i + j) / 2; if !f(h) { i = h + 1 } else { j = h } }\<close>.
\<close>

function search_loop :: "(nat \<Rightarrow> bool) \<Rightarrow> nat \<Rightarrow> nat \<Rightarrow> nat" where
  "search_loop f i j =
     (if i < j then
        (let h = (i + j) div 2
         in if \<not> f h then search_loop f (h + 1) j else search_loop f i h)
      else i)"
  by pat_completeness auto
termination
  by (relation "measure (\<lambda>(f, i, j). j - i)") auto

declare search_loop.simps [simp del]

definition Search :: "nat \<Rightarrow> (nat \<Rightarrow> bool) \<Rightarrow> nat" where
  "Search n f = search_loop f 0 n"

text \<open>
  \<open>GetNode\<close> returns the pair \<open>(name, error)\<close> of the Go function. The search probes
  indices below \<open>len(ch.ring)\<close> only, and the index used for \<open>ch.ring[idx]\<close> is below
  \<open>len(ch.ring)\<close> on a non-empty ring (lemma \<open>GetNode_position\<close>), so no read is out of
  range.
\<close>

definition GetNode :: "ConsistentHashing \<Rightarrow> string \<Rightarrow> string \<times> error option" where
  "GetNode ch key =
     (if length (ring ch) = 0 then ([], Some EmptyRing)
      else
        let keyHash = hashKey key;
            idx = Search (length (ring ch)) (\<lambda>i. ring ch ! i \<ge> keyHash);
            idx = (if idx = length (ring ch) then 0 else idx);
            nodeHash = ring ch ! idx
        in (index_str (hashMap ch) nodeHash, None))"

subsection \<open>AddNode\<close>

text \<open>One round of the loop that appends a virtual node to the ring.\<close>

definition add_vnode :: "string \<Rightarrow> nat \<Rightarrow> ConsistentHashing \<Rightarrow> ConsistentHashing" where
  "add_vnode nodeName i ch =
     (let hash = hashKey (vnodeKey nodeName i)
      in ch\<lparr>ring := ring ch @ [hash],
            hashMap := AList.update hash nodeName (hashMap ch)\<rparr>)"

text \<open>
  Step 1 of \<open>AddNode\<close>: register the empty store, append the \<open>vnodes\<close> positions, sort
  the ring (\<open>sort.Slice\<close> with \<open><\<close>).
\<close>

definition add_to_ring :: "string \<Rightarrow> ConsistentHashing \<Rightarrow> ConsistentHashing" where
  "add_to_ring nodeName ch =
     (let ch1 = ch\<lparr>nodes := AList.update nodeName [] (nodes ch)\<rparr>;
          ch2 = fold (add_vnode nodeName) [0..<nat (vnodes ch1)] ch1
      in ch2\<lparr>ring := sort (ring ch2)\<rparr>)"

text \<open>The scan that fills \<open>keysToMove\<close>, a map from a source node to the keys it loses.\<close>

definition collect_key ::
  "ConsistentHashing \<Rightarrow> string \<Rightarrow> string \<Rightarrow> string
     \<Rightarrow> (string \<times> string list) list \<Rightarrow> (string \<times> string list) list" where
  "collect_key ch nodeName sourceNode key keysToMove =
     (let targetNode = fst (GetNode ch key)
      in if targetNode = nodeName
         then AList.update sourceNode (index_list keysToMove sourceNode @ [key]) keysToMove
         else keysToMove)"

definition collect_node ::
  "ConsistentHashing \<Rightarrow> string \<Rightarrow> string \<times> store
     \<Rightarrow> (string \<times> string list) list \<Rightarrow> (string \<times> string list) list" where
  "collect_node ch nodeName entry keysToMove =
     (case entry of (sourceNode, data) \<Rightarrow>
        if sourceNode = nodeName then keysToMove
        else fold (collect_key ch nodeName sourceNode) (map fst data) keysToMove)"

definition collect_keys :: "ConsistentHashing \<Rightarrow> string \<Rightarrow> (string \<times> string list) list" where
  "collect_keys ch nodeName = fold (collect_node ch nodeName) (nodes ch) []"

text \<open>The body of the loop that moves one key to the new node.\<close>

definition move_key :: "string \<Rightarrow> string \<Rightarrow> string \<Rightarrow> cluster \<Rightarrow> panic + cluster" where
  "move_key nodeName sourceNode key ns =
     (let val = get_record ns sourceNode key
      in case put_record nodeName key val ns of
           Inl p \<Rightarrow> Inl p
         | Inr ns' \<Rightarrow> Inr (delete_record sourceNode key ns'))"

definition move_keys ::
  "string \<Rightarrow> (string \<times> string list) list \<Rightarrow> cluster \<Rightarrow> panic + cluster" where
  "move_keys nodeName keysToMove ns =
     for_each (\<lambda>(sourceNode, keys). for_each (move_key nodeName sourceNode) keys)
       keysToMove ns"

text \<open>
  \<open>keysMoved\<close> and \<open>movesBySource\<close> are incremented once for every key of
  \<open>keysToMove\<close>; they only feed the printed report.
\<close>

definition move_report :: "(string \<times> string list) list \<Rightarrow> printed" where
  "move_report keysToMove =
     MoveReport (sum_list (map (\<lambda>(sourceNode, keys). length keys) keysToMove))
       (map (\<lambda>(sourceNode, keys). (sourceNode, length keys)) keysToMove)"

definition AddNode ::
  "string \<Rightarrow> ConsistentHashing \<Rightarrow> panic + (ConsistentHashing \<times> printed)" where
  "AddNode nodeName ch =
     (if map_of (nodes ch) nodeName \<noteq> None then Inr (ch, NodeAlreadyExists nodeName)
      else
        let ch1 = add_to_ring nodeName ch;
            keysToMove = collect_keys ch1 nodeName
        in case move_keys nodeName keysToMove (nodes ch1) of
             Inl p \<Rightarrow> Inl p
           | Inr ns \<Rightarrow> Inr (ch1\<lparr>nodes := ns\<rparr>, move_report keysToMove))"

subsection \<open>RemoveNode\<close>

text \<open>One round of the loop that marks a position for removal and drops its owner.\<close>

definition remove_vnode ::
  "string \<Rightarrow> nat \<Rightarrow> 32 word list \<times> (32 word \<times> string) list
     \<Rightarrow> 32 word list \<times> (32 word \<times> string) list" where
  "remove_vnode nodeName i acc =
     (case acc of (hashesToRemove, hm) \<Rightarrow>
        let hash = hashKey (vnodeKey nodeName i)
        in (hash # hashesToRemove, AList.delete hash hm))"

text \<open>Step 2 and 3 of \<open>RemoveNode\<close>: the ring and the node map without the node.\<close>

definition remove_from_ring :: "string \<Rightarrow> ConsistentHashing \<Rightarrow> ConsistentHashing" where
  "remove_from_ring nodeName ch =
     (case fold (remove_vnode nodeName) [0..<nat (vnodes ch)] ([], hashMap ch) of
        (hashesToRemove, hm) \<Rightarrow>
          ch\<lparr>ring := filter (\<lambda>hash. hash \<notin> set hashesToRemove) (ring ch),
             hashMap := hm,
             nodes := AList.delete nodeName (nodes ch)\<rparr>)"

text \<open>
  Step 4: every saved record goes to the store of the node \<open>GetNode\<close> names; the error
  of \<open>GetNode\<close> is dropped (\<open>newNode, _ := ch.GetNode(key)\<close>).
\<close>

definition redistribute :: "ConsistentHashing \<Rightarrow> string \<times> string \<Rightarrow> cluster \<Rightarrow> panic + cluster" where
  "redistribute ch entry ns =
     (case entry of (key, val) \<Rightarrow>
        let newNode = fst (GetNode ch key)
        in put_record newNode key val ns)"

text \<open>
  \<open>RemoveNode\<close> returns an error value; the counts it prints (\<open>movesByDest\<close>) do not
  influence the state and are left out.
\<close>

definition RemoveNode ::
  "string \<Rightarrow> ConsistentHashing \<Rightarrow> panic + (ConsistentHashing \<times> error option)" where
  "RemoveNode nodeName ch =
     (case map_of (nodes ch) nodeName of
        None \<Rightarrow> Inr (ch, Some (NodeNotFound nodeName))
      | Some dataToMove \<Rightarrow>
          (let ch1 = remove_from_ring nodeName ch
           in (case for_each (redistribute ch1) dataToMove (nodes ch1) of
                 Inl p \<Rightarrow> Inl p
               | Inr ns \<Rightarrow> Inr (ch1\<lparr>nodes := ns\<rparr>, None))))"

subsection \<open>The distribution loop of main\<close>

text \<open>\<open>for key, value := range users { node, _ := ch.GetNode(key); ch.nodes[node][key] = value }\<close>\<close>

definition distribute :: "store \<Rightarrow> ConsistentHashing \<Rightarrow> panic + ConsistentHashing" where
  "distribute users ch =
     (case for_each (redistribute ch) users (nodes ch) of
        Inl p \<Rightarrow> Inl p
      | Inr ns \<Rightarrow> Inr (ch\<lparr>nodes := ns\<rparr>))"

subsection \<open>Observations on a cluster state\<close>

text \<open>The name a caller keeps from \<open>node, _ := ch.GetNode(key)\<close>.\<close>

definition owner :: "ConsistentHashing \<Rightarrow> string \<Rightarrow> string" where
  "owner ch key = fst (GetNode ch key)"

text \<open>The positions \<open>hashKey(nodeName + "#" + i)\<close> for \<open>i\<close> in \<open>[0, vnodes)\<close>.\<close>

definition vnode_hashes :: "string \<Rightarrow> int \<Rightarrow> 32 word list" where
  "vnode_hashes nodeName vn = map (\<lambda>i. hashKey (vnodeKey nodeName i)) [0..<nat vn]"

text \<open>\<open>ch.nodes[n][key]\<close> with its presence flag.\<close>

definition stored :: "cluster \<Rightarrow> string \<Rightarrow> string \<Rightarrow> string option" where
  "stored ns n key = (case map_of ns n of None \<Rightarrow> None | Some d \<Rightarrow> map_of d key)"

text \<open>A Go map holds every key once: node names are distinct, and so are the keys of a store.\<close>

definition well_formed :: "cluster \<Rightarrow> bool" where
  "well_formed ns = (distinct (map fst ns) \<and> (\<forall>e \<in> set ns. distinct (map fst (snd e))))"

text \<open>No key is held by two stores (a record is owned by exactly one node).\<close>

definition unique_keys :: "cluster \<Rightarrow> bool" where
  "unique_keys ns = distinct (concat (map (\<lambda>e. map fst (snd e)) ns))"

text \<open>The placement invariant that \<open>verifyKeys\<close> checks: every record sits on its owner.\<close>

definition placed :: "ConsistentHashing \<Rightarrow> bool" where
  "placed ch = (\<forall>e \<in> set (nodes ch). \<forall>r \<in> set (snd e). owner ch (fst r) = fst e)"

text \<open>
  Every ring position that is the hash of one of \<open>X\<close>'s virtual-node keys belongs to
  \<open>X\<close> in \<open>hashMap\<close>: no other node has put its name on one of them.
\<close>

definition owns_positions :: "string \<Rightarrow> ConsistentHashing \<Rightarrow> bool" where
  "owns_positions X ch =
     (\<forall>p \<in> set (ring ch) \<inter> set (vnode_hashes X (vnodes ch)). index_str (hashMap ch) p = X)"

text \<open>The total that \<open>printNodeStats\<close> adds up: \<open>total += len(ch.nodes[name])\<close>.\<close>

definition total_records :: "ConsistentHashing \<Rightarrow> nat" where
  "total_records ch = sum_list (map (\<lambda>e. length (snd e)) (nodes ch))"

text \<open>
  The lookup rule in the specification's words: the first position of the ordered
  sequence that is \<open>\<ge>\<close> the key's hash, and the first position of all when there is none.
\<close>

definition first_position :: "32 word list \<Rightarrow> 32 word \<Rightarrow> 32 word" where
  "first_position xs h = (case find (\<lambda>p. h \<le> p) xs of Some p \<Rightarrow> p | None \<Rightarrow> hd xs)"

text \<open>The same rule on the set of positions: the least position \<open>\<ge> h\<close>, else the least of all.\<close>

definition successor :: "32 word set \<Rightarrow> 32 word \<Rightarrow> 32 word" where
  "successor R h = (if \<exists>q \<in> R. h \<le> q then Min {q \<in> R. h \<le> q} else Min R)"

text \<open>A client that builds a ring and then calls the operations one after the other.\<close>

datatype call = Add string | Remove string | Distribute store

fun apply_call :: "call \<Rightarrow> ConsistentHashing \<Rightarrow> panic + ConsistentHashing" where
  "apply_call (Add nodeName) ch =
     (case AddNode nodeName ch of Inl p \<Rightarrow> Inl p | Inr (ch', _) \<Rightarrow> Inr ch')"
| "apply_call (Remove nodeName) ch =
     (case RemoveNode nodeName ch of Inl p \<Rightarrow> Inl p | Inr (ch', _) \<Rightarrow> Inr ch')"
| "apply_call (Distribute users) ch = distribute users ch"

definition run :: "int \<Rightarrow> call list \<Rightarrow> panic + ConsistentHashing" where
  "run vn calls = for_each apply_call calls (NewConsistentHashing vn)"

fun call_names :: "call list \<Rightarrow> string list" where
  "call_names [] = []"
| "call_names (Add nodeName # cs) = nodeName # call_names cs"
| "call_names (Remove nodeName # cs) = nodeName # call_names cs"
| "call_names (Distribute users # cs) = call_names cs"

text \<open>No two virtual nodes of the given names share a position.\<close>

definition positions_distinct :: "string list \<Rightarrow> int \<Rightarrow> bool" where
  "positions_distinct names vn =
     distinct (concat (map (\<lambda>n. vnode_hashes n vn) (remdups names)))"

text \<open>
  A one-node cluster used to instantiate the theorems: the state that
  \<open>AddNode("A")\<close> builds from \<open>NewConsistentHashing(1)\<close>.
\<close>

definition demo_ring :: ConsistentHashing where
  "demo_ring =
     \<lparr>ring = [376011048], hashMap = [(376011048, ''A'')], nodes = [(''A'', [])], vnodes = 1\<rparr>"

text \<open>
  A two-node cluster with two virtual nodes each and three records, the state after
  \<open>AddNode("A")\<close>, \<open>AddNode("B")\<close> and the distribution of the three records.
\<close>

definition demo_cluster :: ConsistentHashing where
  "demo_cluster =
     \<lparr>ring = [338675569, 376011048, 1634617790, 1663629287],
      hashMap = [(376011048, ''A''), (1634617790, ''A''), (338675569, ''B''), (1663629287, ''B'')],
      nodes = [(''A'', [(''key_5'', ''v5'')]), (''B'', [(''key_1'', ''v1''), (''key_42'', ''v42'')])],
      vnodes = 2\<rparr>"

text \<open>\<open>demo_cluster\<close> after \<open>AddNode("C")\<close> and after \<open>RemoveNode("A")\<close>.\<close>

definition demo_added :: ConsistentHashing where
  "demo_added =
     \<lparr>ring = [338675569, 367897926, 376011048, 1634617790, 1659542992, 1663629287],
      hashMap = [(376011048, ''A''), (1634617790, ''A''), (338675569, ''B''), (1663629287, ''B''),
                 (367897926, ''C''), (1659542992, ''C'')],
      nodes = [(''A'', []), (''B'', [(''key_1'', ''v1''), (''key_42'', ''v42'')]),
               (''C'', [(''key_5'', ''v5'')])],
      vnodes = 2\<rparr>"

definition demo_removed :: ConsistentHashing where
  "demo_removed =
     \<lparr>ring = [338675569, 1663629287],
      hashMap = [(338675569, ''B''), (1663629287, ''B'')],
      nodes = [(''B'', [(''key_1'', ''v1''), (''key_42'', ''v42''), (''key_5'', ''v5'')])],
      vnodes = 2\<rparr>"

text \<open>A single node that holds one record.\<close>

definition demo_sole :: ConsistentHashing where
  "demo_sole =
     \<lparr>ring = [376011048], hashMap = [(376011048, ''A'')],
      nodes = [(''A'', [(''key_5'', ''v5'')])], vnodes = 1\<rparr>"

text \<open>
  The names \<open>plumless\<close> and \<open>buckeroo\<close> have the same CRC-32, hence the same
  virtual-node positions. \<open>collide_before\<close> is the state after adding both and \<open>C\<close> to
  a ring with one virtual node per node and distributing one record; \<open>collide_after\<close>
  is that state after \<open>RemoveNode("plumless")\<close>.
\<close>

definition collide_before :: ConsistentHashing where
  "collide_before =
     \<lparr>ring = [367897926, 955024421, 955024421],
      hashMap = [(955024421, ''buckeroo''), (367897926, ''C'')],
      nodes = [(''plumless'', []), (''buckeroo'', [(''key_9'', ''v9'')]), (''C'', [])],
      vnodes = 1\<rparr>"

definition collide_after :: ConsistentHashing where
  "collide_after =
     \<lparr>ring = [367897926], hashMap = [(367897926, ''C'')],
      nodes = [(''buckeroo'', [(''key_9'', ''v9'')]), (''C'', [])],
      vnodes = 1\<rparr>"

text \<open>The ring after adding \<open>plumless\<close> and \<open>buckeroo\<close> with one virtual node each.\<close>

definition collide_ring :: ConsistentHashing where
  "collide_ring =
     \<lparr>ring = [955024421, 955024421], hashMap = [(955024421, ''buckeroo'')],
      nodes = [(''plumless'', []), (''buckeroo'', [])], vnodes = 1\<rparr>"


definition dup_state :: ConsistentHashing where
  "dup_state =
     \<lparr>ring = [367897926], hashMap = [(367897926, ''C'')],
      nodes = [(''buckeroo'', [(''key_9'', ''v9'')]), (''C'', [(''key_9'', ''v9'')])],
      vnodes = 1\<rparr>"

definition dup_merged :: ConsistentHashing where
  "dup_merged =
     \<lparr>ring = [367897926, 955024421],
      hashMap = [(367897926, ''C''), (955024421, ''plumless'')],
      nodes = [(''buckeroo'', []), (''C'', []), (''plumless'', [(''key_9'', ''v9'')])],
      vnodes = 1\<rparr>"

section \<open>Loops and binary search\<close>

lemma for_each_append:
  "for_each body (xs @ ys) s =
     (case for_each body xs s of Inl p \<Rightarrow> Inl p | Inr s' \<Rightarrow> for_each body ys s')"
  by (induction xs arbitrary: s) (auto split: sum.splits)

lemma search_loop_spec:
  assumes "i \<le> j"
    and "\<And>m. m < i \<Longrightarrow> \<not> f m"
    and "\<And>a b. i \<le> a \<Longrightarrow> a \<le> b \<Longrightarrow> b < j \<Longrightarrow> f a \<Longrightarrow> f b"
    and "\<And>a. j \<le> a \<Longrightarrow> a < n \<Longrightarrow> f a"
    and "j \<le> n"
  shows "i \<le> search_loop f i j \<and> search_loop f i j \<le> j
    \<and> (\<forall>m < search_loop f i j. \<not> f m)
    \<and> (\<forall>m. search_loop f i j \<le> m \<and> m < n \<longrightarrow> f m)"
  using assms
proof (induction f i j rule: search_loop.induct)
  case (1 f i j)
  show ?case
  proof (cases "i < j")
    case False
    with "1.prems" show ?thesis
      by (simp add: search_loop.simps)
  next
    case True
    define h where "h = (i + j) div 2"
    have hb: "i \<le> h" "h < j" using True by (auto simp: h_def)
    show ?thesis
    proof (cases "f h")
      case False
      have mono: "\<And>m. m < h + 1 \<Longrightarrow> \<not> f m"
      proof -
        fix m assume m: "m < h + 1"
        show "\<not> f m"
        proof (cases "m < i")
          case True then show ?thesis using "1.prems"(2) by blast
        next
          case F: False
          then show ?thesis using "1.prems"(3)[of m h] m hb False by auto
        qed
      qed
      have IH: "h + 1 \<le> search_loop f (h + 1) j \<and> search_loop f (h + 1) j \<le> j
        \<and> (\<forall>m < search_loop f (h + 1) j. \<not> f m)
        \<and> (\<forall>m. search_loop f (h + 1) j \<le> m \<and> m < n \<longrightarrow> f m)"
      proof (rule "1.IH"(1)[OF True h_def False])
        show "h + 1 \<le> j" using hb by simp
        show "\<And>m. m < h + 1 \<Longrightarrow> \<not> f m" by (rule mono)
        show "\<And>a b. h + 1 \<le> a \<Longrightarrow> a \<le> b \<Longrightarrow> b < j \<Longrightarrow> f a \<Longrightarrow> f b"
        proof -
          fix a b assume ab: "h + 1 \<le> a" "a \<le> b" "b < j" "f a"
          have "i \<le> a" using hb ab(1) by linarith
          then show "f b" using "1.prems"(3)[of a b] ab by blast
        qed
        show "\<And>a. j \<le> a \<Longrightarrow> a < n \<Longrightarrow> f a" by (rule "1.prems"(4))
        show "j \<le> n" by (rule "1.prems"(5))
      qed
      have eq: "search_loop f i j = search_loop f (h + 1) j"
        using True False by (subst search_loop.simps) (simp add: h_def Let_def)
      show ?thesis using IH hb unfolding eq by auto
    next
      case Th: True
      have up: "\<And>a. h \<le> a \<Longrightarrow> a < n \<Longrightarrow> f a"
      proof -
        fix a assume a: "h \<le> a" "a < n"
        show "f a"
        proof (cases "a < j")
          case True then show ?thesis using "1.prems"(3)[of h a] a hb Th by auto
        next
          case False then show ?thesis using "1.prems"(4)[of a] a by auto
        qed
      qed
      have IH: "i \<le> search_loop f i h \<and> search_loop f i h \<le> h
        \<and> (\<forall>m < search_loop f i h. \<not> f m)
        \<and> (\<forall>m. search_loop f i h \<le> m \<and> m < n \<longrightarrow> f m)"
      proof (rule "1.IH"(2)[OF True h_def])
        show "\<not> \<not> f h" using Th by simp
        show "i \<le> h" by (rule hb)
        show "\<And>m. m < i \<Longrightarrow> \<not> f m" by (rule "1.prems"(2))
        show "\<And>a b. i \<le> a \<Longrightarrow> a \<le> b \<Longrightarrow> b < h \<Longrightarrow> f a \<Longrightarrow> f b"
        proof -
          fix a b assume ab: "i \<le> a" "a \<le> b" "b < h" "f a"
          have "b < j" using hb ab(3) by linarith
          then show "f b" using "1.prems"(3)[of a b] ab by blast
        qed
        show "\<And>a. h \<le> a \<Longrightarrow> a < n \<Longrightarrow> f a" by (rule up)
        show "h \<le> n" using hb "1.prems"(5) by simp
      qed
      have eq: "search_loop f i j = search_loop f i h"
        using True Th by (subst search_loop.simps) (simp add: h_def Let_def)
      show ?thesis using IH hb unfolding eq by auto
    qed
  qed
qed

lemma Search_sorted:
  assumes "sorted xs"
  shows "Search (length xs) (\<lambda>i. h \<le> xs ! i) \<le> length xs
    \<and> (\<forall>m < Search (length xs) (\<lambda>i. h \<le> xs ! i). xs ! m < h)
    \<and> (\<forall>m. Search (length xs) (\<lambda>i. h \<le> xs ! i) \<le> m \<and> m < length xs \<longrightarrow> h \<le> xs ! m)"
proof -
  have mono: "\<And>a b. 0 \<le> a \<Longrightarrow> a \<le> b \<Longrightarrow> b < length xs \<Longrightarrow> h \<le> xs ! a \<Longrightarrow> h \<le> xs ! b"
    using assms by (meson order_trans sorted_nth_mono)
  have "0 \<le> search_loop (\<lambda>i. h \<le> xs ! i) 0 (length xs) \<and>
    search_loop (\<lambda>i. h \<le> xs ! i) 0 (length xs) \<le> length xs
    \<and> (\<forall>m < search_loop (\<lambda>i. h \<le> xs ! i) 0 (length xs). \<not> h \<le> xs ! m)
    \<and> (\<forall>m. search_loop (\<lambda>i. h \<le> xs ! i) 0 (length xs) \<le> m \<and> m < length xs \<longrightarrow> h \<le> xs ! m)"
    by (rule search_loop_spec) (use mono in auto)
  then show ?thesis by (auto simp: Search_def not_le)
qed


section \<open>Concrete hash values and the demonstration states\<close>

lemmas crc_defs = hashKey_def ChecksumIEEE_def update_byte_def update_bit_def

text \<open>The standard check value of CRC-32, and the coincidence used further down.\<close>

lemma ChecksumIEEE_check: "ChecksumIEEE ''123456789'' = 0xCBF43926"
  by (simp add: ChecksumIEEE_def update_byte_def update_bit_def)

lemma ChecksumIEEE_collision: "ChecksumIEEE ''plumless'' = ChecksumIEEE ''buckeroo''"
  by (simp add: ChecksumIEEE_def update_byte_def update_bit_def)

lemma hash_A0: "hashKey ''A#0'' = 376011048" by (simp add: crc_defs)
lemma hash_A1: "hashKey ''A#1'' = 1634617790" by (simp add: crc_defs)
lemma hash_B0: "hashKey ''B#0'' = 338675569" by (simp add: crc_defs)
lemma hash_B1: "hashKey ''B#1'' = 1663629287" by (simp add: crc_defs)
lemma hash_key_1: "hashKey ''key_1'' = 333816846" by (simp add: crc_defs)
lemma hash_key_5: "hashKey ''key_5'' = 344481815" by (simp add: crc_defs)
lemma hash_key_42: "hashKey ''key_42'' = 2148106987" by (simp add: crc_defs)

lemma vnodeKey_0: "vnodeKey n 0 = n @ ''#0''" by (simp add: vnodeKey_def itoa.simps)
lemma vnodeKey_1: "vnodeKey n (Suc 0) = n @ ''#1''" by (simp add: vnodeKey_def itoa.simps)

lemma upt_2: "[0..<2] = [0, Suc 0]" by (simp add: upt_rec)
lemma upt_1: "[0..<1] = [0]" by (simp add: upt_rec)

lemma demo_ring_built: "AddNode ''A'' (NewConsistentHashing 1) = Inr (demo_ring, MoveReport 0 [])"
  by (simp add: AddNode_def NewConsistentHashing_def add_to_ring_def add_vnode_def upt_1 vnodeKey_0 hash_A0
      collect_keys_def collect_node_def move_keys_def move_report_def demo_ring_def)

lemma demo_cluster_built:
  "run 2 [Add ''A'', Add ''B'', Distribute [(''key_5'', ''v5''), (''key_1'', ''v1''), (''key_42'', ''v42'')]]
     = Inr demo_cluster"
  by (simp add: run_def AddNode_def NewConsistentHashing_def add_to_ring_def add_vnode_def upt_2 vnodeKey_0 vnodeKey_1
      hash_A0 hash_A1 hash_B0 hash_B1 hash_key_1 hash_key_5 hash_key_42
      collect_keys_def collect_node_def move_keys_def move_report_def demo_cluster_def
      distribute_def redistribute_def GetNode_def Search_def search_loop.simps put_record_def Let_def index_str_def)


section \<open>The demonstration states, computed\<close>

lemma hash_C0: "hashKey ''C#0'' = 367897926" by (simp add: crc_defs)
lemma hash_C1: "hashKey ''C#1'' = 1659542992" by (simp add: crc_defs)
lemma hash_key_9: "hashKey ''key_9'' = 490613820" by (simp add: crc_defs)
lemma hash_plumless0: "hashKey ''plumless#0'' = 955024421" by (simp add: crc_defs)
lemma hash_buckeroo0: "hashKey ''buckeroo#0'' = 955024421" by (simp add: crc_defs)

lemmas hash_values = hash_A0 hash_A1 hash_B0 hash_B1 hash_C0 hash_C1
  hash_key_1 hash_key_5 hash_key_9 hash_key_42 hash_plumless0 hash_buckeroo0

lemmas run_defs = run_def AddNode_def RemoveNode_def NewConsistentHashing_def
  add_to_ring_def add_vnode_def remove_from_ring_def remove_vnode_def
  upt_1 upt_2 vnodeKey_0 vnodeKey_1
  collect_keys_def collect_node_def collect_key_def move_keys_def move_key_def move_report_def
  distribute_def redistribute_def GetNode_def Search_def search_loop.simps
  put_record_def delete_record_def get_record_def index_str_def index_list_def Let_def

lemma demo_added_built: "AddNode ''C'' demo_cluster = Inr (demo_added, MoveReport 1 [(''A'', 1)])"
  by (simp add: demo_cluster_def demo_added_def run_defs hash_values)

lemma demo_removed_built: "RemoveNode ''A'' demo_cluster = Inr (demo_removed, None)"
  by (simp add: demo_cluster_def demo_removed_def run_defs hash_values)

lemma demo_sole_built: "run 1 [Add ''A'', Distribute [(''key_5'', ''v5'')]] = Inr demo_sole"
  by (simp add: demo_sole_def run_defs hash_values)

lemma demo_sole_panics: "RemoveNode ''A'' demo_sole = Inl NilMapWrite"
  by (simp add: demo_sole_def run_defs hash_values)

lemma collide_before_built:
  "run 1 [Add ''plumless'', Add ''buckeroo'', Add ''C'', Distribute [(''key_9'', ''v9'')]]
     = Inr collide_before"
  by (simp add: collide_before_def run_defs hash_values)

lemma collide_after_built: "RemoveNode ''plumless'' collide_before = Inr (collide_after, None)"
  by (simp add: collide_before_def collide_after_def run_defs hash_values)

lemma owner_demo_cluster:
  "owner demo_cluster ''key_1'' = ''B''" "owner demo_cluster ''key_5'' = ''A''"
  "owner demo_cluster ''key_42'' = ''B''"
  by (simp_all add: owner_def demo_cluster_def run_defs hash_values)

lemma owner_demo_added:
  "owner demo_added ''key_1'' = ''B''" "owner demo_added ''key_5'' = ''C''"
  "owner demo_added ''key_42'' = ''B''"
  by (simp_all add: owner_def demo_added_def run_defs hash_values)

lemma owner_demo_removed:
  "owner demo_removed ''key_1'' = ''B''" "owner demo_removed ''key_5'' = ''B''"
  "owner demo_removed ''key_42'' = ''B''"
  by (simp_all add: owner_def demo_removed_def run_defs hash_values)

lemma owner_collide:
  "owner collide_before ''key_9'' = ''buckeroo''" "owner collide_after ''key_9'' = ''C''"
  by (simp_all add: owner_def collide_before_def collide_after_def run_defs hash_values)

lemma demo_cluster_ok:
  "well_formed (nodes demo_cluster)" "unique_keys (nodes demo_cluster)"
  "sorted (ring demo_cluster)"
  by (simp_all add: well_formed_def unique_keys_def demo_cluster_def)

lemma demo_cluster_placed: "placed demo_cluster"
  using owner_demo_cluster by (simp add: placed_def demo_cluster_def)

lemma demo_added_placed: "placed demo_added"
  using owner_demo_added by (simp add: placed_def demo_added_def)

lemma demo_removed_placed: "placed demo_removed"
  using owner_demo_removed by (simp add: placed_def demo_removed_def)

lemma collide_before_ok:
  "well_formed (nodes collide_before)" "sorted (ring collide_before)"
  by (simp_all add: well_formed_def collide_before_def)

lemma collide_before_placed: "placed collide_before"
  using owner_collide(1) by (simp add: placed_def collide_before_def)

lemma collide_after_not_placed: "\<not> placed collide_after"
  using owner_collide(2) by (simp add: placed_def collide_after_def)

lemma collide_after_run:
  "run 1 [Add ''plumless'', Add ''buckeroo'', Add ''C'', Distribute [(''key_9'', ''v9'')],
        Remove ''plumless'']
     = Inr collide_after"
proof -
  have "for_each apply_call
      ([Add ''plumless'', Add ''buckeroo'', Add ''C'', Distribute [(''key_9'', ''v9'')]]
       @ [Remove ''plumless'']) (NewConsistentHashing 1) =
    for_each apply_call [Remove ''plumless''] collide_before"
    unfolding for_each_append collide_before_built[unfolded run_def] by simp
  also have "\<dots> = Inr collide_after" by (simp add: collide_after_built)
  finally show ?thesis by (simp add: run_def)
qed



lemma dup_state_built: "distribute [(''key_9'', ''v9'')] collide_after = Inr dup_state"
  by (simp add: collide_after_def dup_state_def run_defs hash_values)

lemma dup_state_run:
  "run 1 [Add ''plumless'', Add ''buckeroo'', Add ''C'', Distribute [(''key_9'', ''v9'')],
        Remove ''plumless'', Distribute [(''key_9'', ''v9'')]]
     = Inr dup_state"
proof -
  have "for_each apply_call
      ([Add ''plumless'', Add ''buckeroo'', Add ''C'', Distribute [(''key_9'', ''v9'')],
        Remove ''plumless'']
       @ [Distribute [(''key_9'', ''v9'')]]) (NewConsistentHashing 1) =
    for_each apply_call [Distribute [(''key_9'', ''v9'')]] collide_after"
    unfolding for_each_append collide_after_run[unfolded run_def] by simp
  also have "\<dots> = Inr dup_state" by (simp add: dup_state_built)
  finally show ?thesis by (simp add: run_def)
qed

lemma dup_merged_built:
  "AddNode ''plumless'' dup_state =
     Inr (dup_merged, MoveReport 2 [(''buckeroo'', 1), (''C'', 1)])"
  by (simp add: dup_state_def dup_merged_def run_defs hash_values)


section \<open>Lookup and the guards of the membership operations\<close>

lemma search_loop_bounds:
  "i \<le> j \<Longrightarrow> i \<le> search_loop f i j \<and> search_loop f i j \<le> j"
proof (induction f i j rule: search_loop.induct)
  case (1 f i j)
  show ?case
  proof (cases "i < j")
    case False
    with "1.prems" show ?thesis by (simp add: search_loop.simps)
  next
    case True
    define h where "h = (i + j) div 2"
    have hb: "i \<le> h" "h < j" using True by (auto simp: h_def)
    show ?thesis
    proof (cases "f h")
      case False
      have eq: "search_loop f i j = search_loop f (h + 1) j"
        using True False by (subst search_loop.simps) (simp add: h_def Let_def)
      have "h + 1 \<le> search_loop f (h + 1) j \<and> search_loop f (h + 1) j \<le> j"
        by (rule "1.IH"(1)[OF True h_def False]) (use hb in simp)
      then show ?thesis using hb unfolding eq by linarith
    next
      case Th: True
      have eq: "search_loop f i j = search_loop f i h"
        using True Th by (subst search_loop.simps) (simp add: h_def Let_def)
      have nn: "\<not> \<not> f h" using Th by simp
      have "i \<le> search_loop f i h \<and> search_loop f i h \<le> h"
        by (rule "1.IH"(2)[OF True h_def nn]) (rule hb)
      then show ?thesis using hb unfolding eq by linarith
    qed
  qed
qed

lemma GetNode_position:
  assumes "ring ch \<noteq> []"
  shows "\<exists>p \<in> set (ring ch). GetNode ch key = (index_str (hashMap ch) p, None)"
proof -
  define idx where "idx = Search (length (ring ch)) (\<lambda>i. hashKey key \<le> ring ch ! i)"
  define idx' where "idx' = (if idx = length (ring ch) then 0 else idx)"
  have "idx \<le> length (ring ch)"
    using search_loop_bounds[of 0 "length (ring ch)"] by (simp add: idx_def Search_def)
  then have "idx' < length (ring ch)" using assms by (auto simp: idx'_def)
  then have "ring ch ! idx' \<in> set (ring ch)" by simp
  moreover have "GetNode ch key = (index_str (hashMap ch) (ring ch ! idx'), None)"
    using assms by (simp add: GetNode_def Let_def idx_def idx'_def)
  ultimately show ?thesis by blast
qed

text \<open>
  C6: \<open>GetNode\<close> reports the empty-ring error exactly when the ring holds no position.
  On a non-empty ring it reports no error and returns the \<open>hashMap\<close> entry of a ring
  position; when every ring position has an entry in \<open>hashMap\<close>, that is the
  registered owner of the position.
\<close>

theorem GetNode_EmptyRing_iff:
  "(snd (GetNode ch key) = Some EmptyRing \<longleftrightarrow> ring ch = [])
   \<and> (GetNode ch key = ([], Some EmptyRing) \<longleftrightarrow> ring ch = [])
   \<and> (ring ch \<noteq> [] \<longrightarrow>
        snd (GetNode ch key) = None
        \<and> (\<exists>p \<in> set (ring ch). fst (GetNode ch key) = index_str (hashMap ch) p))
   \<and> (ring ch \<noteq> [] \<and> set (ring ch) \<subseteq> fst ` set (hashMap ch) \<longrightarrow>
        (\<exists>p \<in> set (ring ch). map_of (hashMap ch) p = Some (fst (GetNode ch key))))"
proof (cases "ring ch = []")
  case True
  then show ?thesis by (simp add: GetNode_def)
next
  case False
  from GetNode_position[OF False, of key] obtain p where
    p: "p \<in> set (ring ch)" "GetNode ch key = (index_str (hashMap ch) p, None)" by blast
  have "set (ring ch) \<subseteq> fst ` set (hashMap ch) \<Longrightarrow> map_of (hashMap ch) p = Some (index_str (hashMap ch) p)"
  proof -
    assume "set (ring ch) \<subseteq> fst ` set (hashMap ch)"
    then have "p \<in> fst ` set (hashMap ch)" using p(1) by blast
    then obtain n where "map_of (hashMap ch) p = Some n"
      by (metis domD dom_map_of_conv_image_fst)
    then show ?thesis by (simp add: index_str_def)
  qed
  with False p show ?thesis by auto
qed

theorem GetNode_EmptyRing_iff_witness:
  "ring demo_ring \<noteq> [] \<and> set (ring demo_ring) \<subseteq> fst ` set (hashMap demo_ring)
   \<and> GetNode demo_ring ''anykey'' = (''A'', None)
   \<and> GetNode (NewConsistentHashing 1) ''anykey'' = ([], Some EmptyRing)"
  using GetNode_EmptyRing_iff[of demo_ring "''anykey''"]
    GetNode_EmptyRing_iff[of "NewConsistentHashing 1" "''anykey''"]
  by (auto simp: demo_ring_def NewConsistentHashing_def index_str_def prod_eq_iff)

text \<open>
  C7: \<open>AddNode\<close> for a name that is already a key of \<open>nodes\<close> prints the
  already-exists message and returns the state it was given: ring, owner map and every
  store are unchanged, so the node's positions are not added a second time.
\<close>

theorem AddNode_already_exists:
  "map_of (nodes ch) nodeName \<noteq> None \<Longrightarrow>
     AddNode nodeName ch = Inr (ch, NodeAlreadyExists nodeName)"
  by (simp add: AddNode_def)

theorem AddNode_already_exists_witness:
  "map_of (nodes demo_ring) ''A'' \<noteq> None
   \<and> AddNode ''A'' demo_ring = Inr (demo_ring, NodeAlreadyExists ''A'')
   \<and> length (filter (\<lambda>p. index_str (hashMap demo_ring) p = ''A'') (ring demo_ring)) = 1"
  using AddNode_already_exists[of demo_ring "''A''"]
  by (simp add: demo_ring_def index_str_def)

text \<open>
  C8: \<open>RemoveNode\<close> for a name that is not a key of \<open>nodes\<close> returns the not-found
  error and the state it was given.
\<close>

theorem RemoveNode_not_found:
  "map_of (nodes ch) nodeName = None \<Longrightarrow>
     RemoveNode nodeName ch = Inr (ch, Some (NodeNotFound nodeName))"
  by (simp add: RemoveNode_def)

theorem RemoveNode_not_found_witness:
  "map_of (nodes demo_ring) ''B'' = None
   \<and> RemoveNode ''B'' demo_ring = Inr (demo_ring, Some (NodeNotFound ''B''))"
  using RemoveNode_not_found[of demo_ring "''B''"]
  by (simp add: demo_ring_def)


section \<open>The ownership rule\<close>

lemma sorted_index_first_position:
  assumes "sorted xs" and "xs \<noteq> []"
    and idx_def: "idx = Search (length xs) (\<lambda>i. h \<le> xs ! i)"
  shows "xs ! (if idx = length xs then 0 else idx) = first_position xs h"
proof -
  from Search_sorted[OF assms(1), of h]
  have le: "idx \<le> length xs"
    and below: "\<And>m. m < idx \<Longrightarrow> xs ! m < h"
    and above: "\<And>m. idx \<le> m \<Longrightarrow> m < length xs \<Longrightarrow> h \<le> xs ! m"
    unfolding idx_def by blast+
  show ?thesis
  proof (cases "idx = length xs")
    case True
    have "\<not> (\<exists>x \<in> set xs. h \<le> x)"
    proof
      assume "\<exists>x \<in> set xs. h \<le> x"
      then obtain m where "m < length xs" "h \<le> xs ! m" by (auto simp: in_set_conv_nth)
      with below[of m] True show False by auto
    qed
    then have "find (\<lambda>p. h \<le> p) xs = None" by (simp add: find_None_iff)
    with True assms(2) show ?thesis by (simp add: first_position_def hd_conv_nth)
  next
    case False
    with le have lt: "idx < length xs" by simp
    have "find (\<lambda>p. h \<le> p) xs = Some (xs ! idx)"
      unfolding find_Some_iff
      using lt above[of idx] below by (intro exI[of _ idx]) (auto simp: not_le)
    with False show ?thesis by (simp add: first_position_def)
  qed
qed

lemma GetNode_sorted:
  assumes "sorted (ring ch)" and "ring ch \<noteq> []"
  shows "GetNode ch key = (index_str (hashMap ch) (first_position (ring ch) (hashKey key)), None)"
  using assms sorted_index_first_position[OF assms refl, of "hashKey key"]
  by (simp add: GetNode_def Let_def)

lemma first_position_successor:
  assumes "sorted xs" and "xs \<noteq> []"
  shows "first_position xs h = successor (set xs) h"
proof (cases "find (\<lambda>p. h \<le> p) xs")
  case None
  then have no: "\<not> (\<exists>q \<in> set xs. h \<le> q)" by (simp add: find_None_iff)
  have "hd xs = Min (set xs)"
    using assms by (cases xs) (auto intro!: Min_eqI[symmetric])
  with None no show ?thesis by (simp add: first_position_def successor_def)
next
  case (Some p)
  then obtain i where i: "i < length xs" "h \<le> xs ! i" "p = xs ! i" "\<forall>j<i. \<not> h \<le> xs ! j"
    unfolding find_Some_iff by blast
  have ex: "\<exists>q \<in> set xs. h \<le> q" using i by auto
  have "Min {q \<in> set xs. h \<le> q} = p"
  proof (rule Min_eqI)
    show "finite {q \<in> set xs. h \<le> q}" by simp
    show "p \<in> {q \<in> set xs. h \<le> q}" using i by auto
    fix y assume "y \<in> {q \<in> set xs. h \<le> q}"
    then obtain j where j: "j < length xs" "y = xs ! j" "h \<le> y" by (auto simp: in_set_conv_nth)
    then have "\<not> j < i" using i(4) by auto
    then have "i \<le> j" by simp
    then show "p \<le> y" using assms(1) i(3) j by (simp add: sorted_nth_mono)
  qed
  with Some ex show ?thesis by (simp add: first_position_def successor_def)
qed

lemma successor_in: "finite R \<Longrightarrow> R \<noteq> {} \<Longrightarrow> successor R h \<in> R"
proof -
  assume f: "finite R" and ne: "R \<noteq> {}"
  show ?thesis
  proof (cases "\<exists>q \<in> R. h \<le> q")
    case True
    then have "{q \<in> R. h \<le> q} \<noteq> {}" by blast
    then have "Min {q \<in> R. h \<le> q} \<in> {q \<in> R. h \<le> q}" using f by (intro Min_in) auto
    with True show ?thesis by (simp add: successor_def)
  next
    case False
    then show ?thesis using f ne by (simp add: successor_def)
  qed
qed

lemma successor_subset:
  assumes "finite B" and "A \<subseteq> B" and "successor B h \<in> A"
  shows "successor A h = successor B h"
proof -
  have fA: "finite A" using assms by (auto intro: finite_subset)
  show ?thesis
  proof (cases "\<exists>q \<in> B. h \<le> q")
    case True
    then have neB: "{q \<in> B. h \<le> q} \<noteq> {}" by blast
    have sB: "successor B h = Min {q \<in> B. h \<le> q}" using True by (simp add: successor_def)
    have inB: "Min {q \<in> B. h \<le> q} \<in> {q \<in> B. h \<le> q}" using assms(1) neB by (intro Min_in) auto
    then have hle: "h \<le> successor B h" using sB by simp
    then have exA: "\<exists>q \<in> A. h \<le> q" using assms(3) by blast
    have "Min {q \<in> A. h \<le> q} = successor B h"
    proof (rule Min_eqI)
      show "finite {q \<in> A. h \<le> q}" using fA by simp
      show "successor B h \<in> {q \<in> A. h \<le> q}" using assms(3) hle by simp
      fix y assume "y \<in> {q \<in> A. h \<le> q}"
      then have "y \<in> {q \<in> B. h \<le> q}" using assms(2) by blast
      then show "successor B h \<le> y" unfolding sB using assms(1) by (intro Min_le) auto
    qed
    with exA show ?thesis by (simp add: successor_def)
  next
    case False
    then have noA: "\<not> (\<exists>q \<in> A. h \<le> q)" using assms(2) by blast
    have sB: "successor B h = Min B" using False by (simp add: successor_def)
    have "Min A = Min B"
    proof (rule Min_eqI)
      show "finite A" by (rule fA)
      show "Min B \<in> A" using assms(3) sB by simp
      fix y assume "y \<in> A"
      then show "Min B \<le> y" using assms(1,2) by (intro Min_le) auto
    qed
    with noA sB show ?thesis by (simp add: successor_def)
  qed
qed

text \<open>
  C4: on a sorted, non-empty ring \<open>GetNode\<close> returns, without error, the \<open>hashMap\<close>
  entry of the first position that is \<open>\<ge>\<close> the key's hash, which is the least such
  position; when the hash exceeds every position it returns the entry of the smallest
  position of the ring.
\<close>

theorem GetNode_first_position:
  assumes "sorted (ring ch)" and "ring ch \<noteq> []"
  shows "GetNode ch key =
           (index_str (hashMap ch) (first_position (ring ch) (hashKey key)), None)
    \<and> ((\<exists>p \<in> set (ring ch). hashKey key \<le> p) \<longrightarrow>
          first_position (ring ch) (hashKey key) = Min {p \<in> set (ring ch). hashKey key \<le> p})
    \<and> ((\<forall>p \<in> set (ring ch). p < hashKey key) \<longrightarrow>
          GetNode ch key = (index_str (hashMap ch) (Min (set (ring ch))), None))"
proof -
  have g: "GetNode ch key =
      (index_str (hashMap ch) (first_position (ring ch) (hashKey key)), None)"
    by (rule GetNode_sorted[OF assms])
  have s: "first_position (ring ch) (hashKey key) = successor (set (ring ch)) (hashKey key)"
    by (rule first_position_successor[OF assms])
  have "(\<forall>p \<in> set (ring ch). p < hashKey key) \<Longrightarrow> \<not> (\<exists>q \<in> set (ring ch). hashKey key \<le> q)"
    by (auto simp: not_le)
  then show ?thesis using g s by (auto simp: successor_def)
qed

theorem GetNode_first_position_witness:
  "sorted (ring demo_cluster) \<and> ring demo_cluster \<noteq> []
   \<and> GetNode demo_cluster ''key_5'' = (''A'', None)
   \<and> GetNode demo_cluster ''key_42'' = (''B'', None)"
  using GetNode_first_position[of demo_cluster "''key_5''"]
    GetNode_first_position[of demo_cluster "''key_42''"]
  by (simp add: demo_cluster_def first_position_def index_str_def hash_key_5 hash_key_42)


section \<open>Stores: what the map primitives and the move loop do\<close>

lemma set_update_cases:
  "e \<in> set (AList.update k v al) \<Longrightarrow> e = (k, v) \<or> e \<in> set al"
  by (induction al) (auto split: if_splits)

lemma names_update_present:
  "map_of ns n = Some d \<Longrightarrow> map fst (AList.update n d' ns) = map fst ns"
  by (induction ns) (auto split: if_splits)

lemma well_formed_update:
  "well_formed ns \<Longrightarrow> distinct (map fst d) \<Longrightarrow> well_formed (AList.update n d ns)"
  unfolding well_formed_def
  by (auto simp: distinct_update dest!: set_update_cases)

lemma well_formed_store:
  "well_formed ns \<Longrightarrow> map_of ns n = Some d \<Longrightarrow> distinct (map fst d)"
  unfolding well_formed_def by (auto dest!: map_of_SomeD)

lemma stored_update:
  "stored (AList.update n d ns) n' k = (if n' = n then map_of d k else stored ns n' k)"
  by (simp add: stored_def update_conv')

lemma put_record_Inr:
  "put_record n k v ns = Inr ns' \<longleftrightarrow>
     (\<exists>d. map_of ns n = Some d \<and> ns' = AList.update n (AList.update k v d) ns)"
  by (auto simp: put_record_def split: option.splits)

lemma put_record_Inl: "put_record n k v ns = Inl p \<longleftrightarrow> map_of ns n = None"
  by (cases p) (auto simp: put_record_def split: option.splits)

lemma stored_put:
  "put_record n k v ns = Inr ns' \<Longrightarrow>
     stored ns' n' k' = (if n' = n \<and> k' = k then Some v else stored ns n' k')"
  by (auto simp: put_record_Inr stored_update update_conv' stored_def)

lemma names_put: "put_record n k v ns = Inr ns' \<Longrightarrow> map fst ns' = map fst ns"
  by (auto simp: put_record_Inr names_update_present)

lemma well_formed_put:
  "put_record n k v ns = Inr ns' \<Longrightarrow> well_formed ns \<Longrightarrow> well_formed ns'"
  by (auto simp: put_record_Inr intro!: well_formed_update distinct_update dest: well_formed_store)

lemma stored_delete:
  "stored (delete_record n k ns) n' k' =
     (if n' = n \<and> k' = k then None else stored ns n' k')"
proof (cases "map_of ns n")
  case None
  then show ?thesis by (auto simp: delete_record_def stored_def)
next
  case (Some d)
  then have eq: "delete_record n k ns = AList.update n (AList.delete k d) ns"
    by (simp add: delete_record_def)
  have "stored ns n k' = map_of d k'" using Some by (simp add: stored_def)
  then show ?thesis unfolding eq by (simp add: stored_update delete_conv')
qed

lemma names_delete: "map fst (delete_record n k ns) = map fst ns"
  by (auto simp: delete_record_def names_update_present split: option.splits)

lemma well_formed_delete: "well_formed ns \<Longrightarrow> well_formed (delete_record n k ns)"
  by (auto simp: delete_record_def split: option.splits
      intro!: well_formed_update distinct_delete dest: well_formed_store)

lemma registered_iff: "map_of ns n \<noteq> None \<longleftrightarrow> n \<in> set (map fst ns)"
  by (metis domIff dom_map_of_conv_image_fst set_map)

lemma get_record_stored: "stored ns n k = Some v \<Longrightarrow> get_record ns n k = v"
  by (auto simp: stored_def get_record_def index_str_def split: option.splits)

lemma move_key_effect:
  assumes "map_of ns Y \<noteq> None" and "stored ns src k = Some v" and "src \<noteq> Y"
  shows "\<exists>ns'. move_key Y src k ns = Inr ns' \<and> map fst ns' = map fst ns
    \<and> (well_formed ns \<longrightarrow> well_formed ns')
    \<and> (\<forall>n' k'. stored ns' n' k' =
          (if n' = Y \<and> k' = k then Some v
           else if n' = src \<and> k' = k then None else stored ns n' k'))"
proof -
  from assms(1) obtain d where d: "map_of ns Y = Some d" by blast
  define ns1 where "ns1 = AList.update Y (AList.update k v d) ns"
  have p: "put_record Y k v ns = Inr ns1" using d by (simp add: put_record_Inr ns1_def)
  have m: "move_key Y src k ns = Inr (delete_record src k ns1)"
    using p get_record_stored[OF assms(2)] by (simp add: move_key_def)
  have "map fst (delete_record src k ns1) = map fst ns"
    using names_put[OF p] by (simp add: names_delete)
  moreover have "well_formed ns \<longrightarrow> well_formed (delete_record src k ns1)"
    using well_formed_put[OF p] by (auto intro: well_formed_delete)
  moreover have "\<forall>n' k'. stored (delete_record src k ns1) n' k' =
          (if n' = Y \<and> k' = k then Some v
           else if n' = src \<and> k' = k then None else stored ns n' k')"
    using assms(3) by (auto simp: stored_delete stored_put[OF p])
  ultimately show ?thesis using m by blast
qed

lemma for_each_move_keys_flat:
  "for_each (move_key Y src) keys ns =
     for_each (\<lambda>(s, k). move_key Y s k) (map (Pair src) keys) ns"
  by (induction keys arbitrary: ns) (auto split: sum.splits)

lemma move_keys_flat:
  "move_keys Y ktm ns =
     for_each (\<lambda>(s, k). move_key Y s k)
       (concat (map (\<lambda>(src, keys). map (Pair src) keys) ktm)) ns"
  unfolding move_keys_def
proof (induction ktm arbitrary: ns)
  case Nil
  show ?case by simp
next
  case (Cons e ktm)
  obtain src keys where e: "e = (src, keys)" by (cases e)
  show ?case
    using Cons.IH
    by (simp add: e for_each_append for_each_move_keys_flat split: sum.splits)
qed

lemma moves_effect:
  assumes "map_of ns Y \<noteq> None" and "distinct moves"
    and "\<forall>(src, k) \<in> set moves. src \<noteq> Y \<and> stored ns src k \<noteq> None"
  shows "\<exists>ns'. for_each (\<lambda>(s, k). move_key Y s k) moves ns = Inr ns'
    \<and> map fst ns' = map fst ns
    \<and> (well_formed ns \<longrightarrow> well_formed ns')
    \<and> (\<forall>n k. n \<noteq> Y \<longrightarrow>
          stored ns' n k = (if (n, k) \<in> set moves then None else stored ns n k))
    \<and> (\<forall>k v. stored ns' Y k = Some v \<longrightarrow>
          stored ns Y k = Some v \<or> (\<exists>n. (n, k) \<in> set moves \<and> stored ns n k = Some v))
    \<and> (\<forall>k. stored ns Y k \<noteq> None \<or> (\<exists>n. (n, k) \<in> set moves) \<longrightarrow> stored ns' Y k \<noteq> None)"
  using assms
proof (induction moves arbitrary: ns)
  case Nil
  then show ?case by simp
next
  case (Cons m moves)
  obtain src key where m: "m = (src, key)" by (cases m)
  from Cons.prems(3) obtain v where v: "stored ns src key = Some v" and sy: "src \<noteq> Y"
    by (auto simp: m)
  from move_key_effect[OF Cons.prems(1) v sy] obtain ns1 where
    mk: "move_key Y src key ns = Inr ns1" and nm1: "map fst ns1 = map fst ns"
    and wf1: "well_formed ns \<longrightarrow> well_formed ns1"
    and st1: "\<And>n' k'. stored ns1 n' k' =
          (if n' = Y \<and> k' = key then Some v
           else if n' = src \<and> k' = key then None else stored ns n' k')"
    by blast
  have reg1: "map_of ns1 Y \<noteq> None"
    using Cons.prems(1) nm1 unfolding registered_iff by simp
  have d1: "distinct moves" and notin: "(src, key) \<notin> set moves"
    using Cons.prems(2) by (auto simp: m)
  have pre1: "\<forall>(s, k) \<in> set moves. s \<noteq> Y \<and> stored ns1 s k \<noteq> None"
    using Cons.prems(3) notin by (auto simp: st1)
  from Cons.IH[OF reg1 d1 pre1] obtain ns' where
    fe: "for_each (\<lambda>(s, k). move_key Y s k) moves ns1 = Inr ns'"
    and nm': "map fst ns' = map fst ns1"
    and wf': "well_formed ns1 \<longrightarrow> well_formed ns'"
    and a': "\<And>n k. n \<noteq> Y \<Longrightarrow>
          stored ns' n k = (if (n, k) \<in> set moves then None else stored ns1 n k)"
    and b': "\<And>k v. stored ns' Y k = Some v \<Longrightarrow>
          stored ns1 Y k = Some v \<or> (\<exists>n. (n, k) \<in> set moves \<and> stored ns1 n k = Some v)"
    and c': "\<And>k. stored ns1 Y k \<noteq> None \<or> (\<exists>n. (n, k) \<in> set moves) \<Longrightarrow> stored ns' Y k \<noteq> None"
    by blast
  have run: "for_each (\<lambda>(s, k). move_key Y s k) (m # moves) ns = Inr ns'"
    using mk fe by (simp add: m)
  have A: "\<forall>n k. n \<noteq> Y \<longrightarrow>
          stored ns' n k = (if (n, k) \<in> set (m # moves) then None else stored ns n k)"
    using a' sy by (auto simp: m st1)
  have B: "\<forall>k v'. stored ns' Y k = Some v' \<longrightarrow>
          stored ns Y k = Some v' \<or> (\<exists>n. (n, k) \<in> set (m # moves) \<and> stored ns n k = Some v')"
  proof (intro allI impI)
    fix k v' assume s: "stored ns' Y k = Some v'"
    from b'[OF s] show "stored ns Y k = Some v' \<or>
        (\<exists>n. (n, k) \<in> set (m # moves) \<and> stored ns n k = Some v')"
    proof
      assume "stored ns1 Y k = Some v'"
      then show ?thesis using v by (auto simp: st1 m split: if_splits)
    next
      assume "\<exists>n. (n, k) \<in> set moves \<and> stored ns1 n k = Some v'"
      then obtain n where n: "(n, k) \<in> set moves" "stored ns1 n k = Some v'" by blast
      have "n \<noteq> Y" using Cons.prems(3) n(1) by auto
      then have "stored ns n k = Some v'" using n(2) by (auto simp: st1 split: if_splits)
      then show ?thesis using n(1) by auto
    qed
  qed
  have C: "\<forall>k. stored ns Y k \<noteq> None \<or> (\<exists>n. (n, k) \<in> set (m # moves)) \<longrightarrow> stored ns' Y k \<noteq> None"
  proof (intro allI impI)
    fix k assume h: "stored ns Y k \<noteq> None \<or> (\<exists>n. (n, k) \<in> set (m # moves))"
    have "stored ns1 Y k \<noteq> None \<or> (\<exists>n. (n, k) \<in> set moves)"
      using h by (auto simp: st1 m)
    then show "stored ns' Y k \<noteq> None" by (rule c')
  qed
  show ?case using run nm' nm1 wf1 wf' A B C by auto
qed


section \<open>The scan for the keys a new node claims\<close>

lemma update_absent: "k \<notin> fst ` set al \<Longrightarrow> AList.update k v al = al @ [(k, v)]"
  by (induction al) auto

lemma index_list_absent: "k \<notin> fst ` set al \<Longrightarrow> index_list al k = []"
  using map_of_eq_None_iff[of al k] by (simp add: index_list_def)

lemma index_list_update: "index_list (AList.update k v al) k = v"
  by (simp add: index_list_def update_conv')

lemma collect_key_fold:
  "fold (collect_key ch Y src) keys ktm =
     (if filter (\<lambda>k. owner ch k = Y) keys = [] then ktm
      else AList.update src (index_list ktm src @ filter (\<lambda>k. owner ch k = Y) keys) ktm)"
proof (induction keys arbitrary: ktm)
  case Nil
  show ?case by simp
next
  case (Cons k keys)
  show ?case
  proof (cases "owner ch k = Y")
    case False
    then have "collect_key ch Y src k ktm = ktm" by (simp add: collect_key_def owner_def)
    then show ?thesis using Cons.IH[of ktm] False by simp
  next
    case True
    define ktm1 where "ktm1 = AList.update src (index_list ktm src @ [k]) ktm"
    have c: "collect_key ch Y src k ktm = ktm1"
      using True by (simp add: collect_key_def owner_def ktm1_def)
    have i: "index_list ktm1 src = index_list ktm src @ [k]"
      by (simp add: ktm1_def index_list_update)
    show ?thesis
      using Cons.IH[of ktm1] True
      by (simp add: c i) (simp add: ktm1_def)
  qed
qed

lemma collect_node_flat:
  assumes "fst e \<notin> fst ` set ktm"
  shows "concat (map (\<lambda>(src, keys). map (Pair src) keys) (collect_node ch Y e ktm)) =
      concat (map (\<lambda>(src, keys). map (Pair src) keys) ktm)
      @ (if fst e = Y then []
         else map (Pair (fst e)) (filter (\<lambda>k. owner ch k = Y) (map fst (snd e))))"
    and "fst ` set (collect_node ch Y e ktm) \<subseteq> insert (fst e) (fst ` set ktm)"
proof -
  obtain src d where e: "e = (src, d)" by (cases e)
  have a: "src \<notin> fst ` set ktm" using assms by (simp add: e)
  show "concat (map (\<lambda>(src, keys). map (Pair src) keys) (collect_node ch Y e ktm)) =
      concat (map (\<lambda>(src, keys). map (Pair src) keys) ktm)
      @ (if fst e = Y then []
         else map (Pair (fst e)) (filter (\<lambda>k. owner ch k = Y) (map fst (snd e))))"
    by (simp add: e collect_node_def collect_key_fold update_absent[OF a] index_list_absent[OF a])
  show "fst ` set (collect_node ch Y e ktm) \<subseteq> insert (fst e) (fst ` set ktm)"
    by (auto simp: e collect_node_def collect_key_fold update_absent[OF a] index_list_absent[OF a])
qed

lemma collect_fold_flat:
  assumes "distinct (map fst ns)" and "fst ` set ktm \<inter> fst ` set ns = {}"
  shows "concat (map (\<lambda>(src, keys). map (Pair src) keys) (fold (collect_node ch Y) ns ktm)) =
      concat (map (\<lambda>(src, keys). map (Pair src) keys) ktm)
      @ concat (map (\<lambda>e. if fst e = Y then []
          else map (Pair (fst e)) (filter (\<lambda>k. owner ch k = Y) (map fst (snd e)))) ns)"
  using assms
proof (induction ns arbitrary: ktm)
  case Nil
  show ?case by simp
next
  case (Cons e ns)
  have a: "fst e \<notin> fst ` set ktm" using Cons.prems(2) by auto
  have d: "distinct (map fst ns)" and n: "fst e \<notin> fst ` set ns"
    using Cons.prems(1) by auto
  have disj: "fst ` set (collect_node ch Y e ktm) \<inter> fst ` set ns = {}"
  proof -
    have sub: "fst ` set (collect_node ch Y e ktm) \<subseteq> insert (fst e) (fst ` set ktm)"
      by (rule collect_node_flat(2)[OF a])
    have "fst ` set ktm \<inter> insert (fst e) (fst ` set ns) = {}"
      using Cons.prems(2) by simp
    then have dj: "\<And>x. x \<in> fst ` set ktm \<Longrightarrow> x \<notin> fst ` set ns"
      by (simp add: disjoint_iff)
    have "\<And>x. x \<in> fst ` set (collect_node ch Y e ktm) \<Longrightarrow> x \<notin> fst ` set ns"
    proof -
      fix x assume "x \<in> fst ` set (collect_node ch Y e ktm)"
      then have "x \<in> insert (fst e) (fst ` set ktm)" using sub by (rule rev_subsetD)
      then have "x = fst e \<or> x \<in> fst ` set ktm" by simp
      then show "x \<notin> fst ` set ns" using n dj by metis
    qed
    then show ?thesis by (simp add: disjoint_iff)
  qed
  let ?flat = "\<lambda>ktm. concat (map (\<lambda>(src, keys). map (Pair src) keys) ktm)"
  let ?g = "\<lambda>e. if fst e = Y then []
          else map (Pair (fst e)) (filter (\<lambda>k. owner ch k = Y) (map fst (snd e)))"
  have "?flat (fold (collect_node ch Y) (e # ns) ktm) =
      ?flat (fold (collect_node ch Y) ns (collect_node ch Y e ktm))" by simp
  also have "\<dots> = ?flat (collect_node ch Y e ktm) @ concat (map ?g ns)"
    by (rule Cons.IH[OF d disj])
  also have "\<dots> = (?flat ktm @ ?g e) @ concat (map ?g ns)"
    by (simp only: collect_node_flat(1)[OF a])
  also have "\<dots> = ?flat ktm @ concat (map ?g (e # ns))" by simp
  finally show ?case .
qed

lemma collect_keys_flat:
  assumes "distinct (map fst (nodes ch))"
  shows "concat (map (\<lambda>(src, keys). map (Pair src) keys) (collect_keys ch Y)) =
      concat (map (\<lambda>e. if fst e = Y then []
          else map (Pair (fst e)) (filter (\<lambda>k. owner ch k = Y) (map fst (snd e)))) (nodes ch))"
  using collect_fold_flat[OF assms, of "[]" ch Y] by (simp add: collect_keys_def)

lemma stored_iff:
  assumes "distinct (map fst ns)"
  shows "stored ns n k \<noteq> None \<longleftrightarrow> (\<exists>d. (n, d) \<in> set ns \<and> k \<in> fst ` set d)"
proof
  assume "stored ns n k \<noteq> None"
  then obtain d where "map_of ns n = Some d" "map_of d k \<noteq> None"
    by (auto simp: stored_def split: option.splits)
  then show "\<exists>d. (n, d) \<in> set ns \<and> k \<in> fst ` set d"
    by (metis map_of_SomeD map_of_eq_None_iff)
next
  assume "\<exists>d. (n, d) \<in> set ns \<and> k \<in> fst ` set d"
  then obtain d where d: "(n, d) \<in> set ns" "k \<in> fst ` set d" by blast
  then have "map_of ns n = Some d" using assms by simp
  then show "stored ns n k \<noteq> None" using d(2) by (simp add: stored_def map_of_eq_None_iff)
qed

lemma moves_set:
  assumes "distinct (map fst ns)"
  shows "set (concat (map (\<lambda>e. if fst e = Y then []
          else map (Pair (fst e)) (filter P (map fst (snd e)))) ns)) =
      {(n, k). n \<noteq> Y \<and> P k \<and> stored ns n k \<noteq> None}"
proof -
  let ?g = "\<lambda>e. if fst e = Y then []
          else map (Pair (fst e)) (filter P (map fst (snd e)))"
  have el: "\<And>e n k. (n, k) \<in> set (?g e) \<longleftrightarrow>
      n = fst e \<and> n \<noteq> Y \<and> P k \<and> k \<in> fst ` set (snd e)"
    by auto
  have "\<And>n k. (n, k) \<in> set (concat (map ?g ns)) \<longleftrightarrow>
      n \<noteq> Y \<and> P k \<and> (\<exists>d. (n, d) \<in> set ns \<and> k \<in> fst ` set d)"
  proof -
    fix n k
    have "(n, k) \<in> set (concat (map ?g ns)) \<longleftrightarrow> (\<exists>e \<in> set ns. (n, k) \<in> set (?g e))"
      by (simp only: set_concat set_map image_image UN_iff)
    also have "\<dots> \<longleftrightarrow> (\<exists>e \<in> set ns. n = fst e \<and> n \<noteq> Y \<and> P k \<and> k \<in> fst ` set (snd e))"
      by (simp only: el)
    also have "\<dots> \<longleftrightarrow> n \<noteq> Y \<and> P k \<and> (\<exists>d. (n, d) \<in> set ns \<and> k \<in> fst ` set d)"
      by (metis prod.collapse fst_conv snd_conv)
    finally show "(n, k) \<in> set (concat (map ?g ns)) \<longleftrightarrow>
      n \<noteq> Y \<and> P k \<and> (\<exists>d. (n, d) \<in> set ns \<and> k \<in> fst ` set d)" .
  qed
  then show ?thesis unfolding stored_iff[OF assms] by (simp add: set_eq_iff)
qed

lemma moves_distinct:
  assumes "well_formed ns"
  shows "distinct (concat (map (\<lambda>e. if fst e = Y then []
          else map (Pair (fst e)) (filter P (map fst (snd e)))) ns))"
  using assms unfolding well_formed_def
proof (induction ns)
  case Nil
  show ?case by simp
next
  case (Cons e ns)
  have "distinct (map (Pair (fst e)) (filter P (map fst (snd e))))"
    using Cons.prems by (simp add: distinct_map inj_on_def)
  moreover have "set (map (Pair (fst e)) (filter P (map fst (snd e)))) \<inter>
      set (concat (map (\<lambda>e. if fst e = Y then []
          else map (Pair (fst e)) (filter P (map fst (snd e)))) ns)) = {}"
  proof -
    have 1: "\<And>x. x \<in> set (map (Pair (fst e)) (filter P (map fst (snd e)))) \<Longrightarrow> fst x = fst e"
      by auto
    have 2: "\<And>x. x \<in> set (concat (map (\<lambda>e. if fst e = Y then []
          else map (Pair (fst e)) (filter P (map fst (snd e)))) ns)) \<Longrightarrow> fst x \<in> fst ` set ns"
      by (force split: if_splits)
    have 3: "fst e \<notin> fst ` set ns" using Cons.prems by simp
    have "\<And>x. x \<in> set (map (Pair (fst e)) (filter P (map fst (snd e)))) \<Longrightarrow>
        x \<notin> set (concat (map (\<lambda>e. if fst e = Y then []
          else map (Pair (fst e)) (filter P (map fst (snd e)))) ns))"
    proof
      fix x
      assume a: "x \<in> set (map (Pair (fst e)) (filter P (map fst (snd e))))"
        and b: "x \<in> set (concat (map (\<lambda>e. if fst e = Y then []
          else map (Pair (fst e)) (filter P (map fst (snd e)))) ns))"
      have "fst x = fst e" using a by (rule 1)
      moreover have "fst x \<in> fst ` set ns" using b by (rule 2)
      ultimately show False using 3 by simp
    qed
    then show ?thesis unfolding disjoint_iff by blast
  qed
  ultimately show ?case using Cons by simp
qed


section \<open>The ring after a membership change\<close>

lemma add_vnodes_fold:
  "ring (fold (add_vnode Y) js ch) = ring ch @ map (\<lambda>i. hashKey (vnodeKey Y i)) js
   \<and> nodes (fold (add_vnode Y) js ch) = nodes ch
   \<and> vnodes (fold (add_vnode Y) js ch) = vnodes ch
   \<and> (\<forall>p. map_of (hashMap (fold (add_vnode Y) js ch)) p =
          (if p \<in> (\<lambda>i. hashKey (vnodeKey Y i)) ` set js then Some Y
           else map_of (hashMap ch) p))"
proof (induction js arbitrary: ch)
  case Nil
  show ?case by simp
next
  case (Cons j js)
  show ?case
    using Cons.IH[of "add_vnode Y j ch"]
    by (simp add: add_vnode_def Let_def update_conv')
qed

lemma add_to_ring_fields:
  "ring (add_to_ring Y ch) = sort (ring ch @ vnode_hashes Y (vnodes ch))"
  "nodes (add_to_ring Y ch) = AList.update Y [] (nodes ch)"
  "vnodes (add_to_ring Y ch) = vnodes ch"
  "map_of (hashMap (add_to_ring Y ch)) p =
     (if p \<in> set (vnode_hashes Y (vnodes ch)) then Some Y else map_of (hashMap ch) p)"
  using add_vnodes_fold[of Y "[0..<nat (vnodes ch)]" "ch\<lparr>nodes := AList.update Y [] (nodes ch)\<rparr>"]
  by (simp_all add: add_to_ring_def Let_def vnode_hashes_def)

lemma remove_vnodes_fold:
  "fst (fold (remove_vnode X) js (acc, hm)) = rev (map (\<lambda>i. hashKey (vnodeKey X i)) js) @ acc
   \<and> (\<forall>p. map_of (snd (fold (remove_vnode X) js (acc, hm))) p =
          (if p \<in> (\<lambda>i. hashKey (vnodeKey X i)) ` set js then None else map_of hm p))"
proof (induction js arbitrary: acc hm)
  case Nil
  show ?case by simp
next
  case (Cons j js)
  show ?case
    using Cons.IH[of "hashKey (vnodeKey X j) # acc" "AList.delete (hashKey (vnodeKey X j)) hm"]
    by (simp add: remove_vnode_def Let_def delete_conv')
qed

lemma remove_from_ring_fields:
  "ring (remove_from_ring X ch) =
     filter (\<lambda>p. p \<notin> set (vnode_hashes X (vnodes ch))) (ring ch)"
  "nodes (remove_from_ring X ch) = AList.delete X (nodes ch)"
  "vnodes (remove_from_ring X ch) = vnodes ch"
  "map_of (hashMap (remove_from_ring X ch)) p =
     (if p \<in> set (vnode_hashes X (vnodes ch)) then None else map_of (hashMap ch) p)"
proof -
  obtain hs hm where f: "fold (remove_vnode X) [0..<nat (vnodes ch)] ([], hashMap ch) = (hs, hm)"
    by (cases "fold (remove_vnode X) [0..<nat (vnodes ch)] ([], hashMap ch)")
  from remove_vnodes_fold[of X "[0..<nat (vnodes ch)]" "[]" "hashMap ch"]
  have hs: "hs = rev (vnode_hashes X (vnodes ch))"
    and hm: "\<And>p. map_of hm p =
      (if p \<in> set (vnode_hashes X (vnodes ch)) then None else map_of (hashMap ch) p)"
    unfolding f by (simp_all add: vnode_hashes_def)
  show "ring (remove_from_ring X ch) =
     filter (\<lambda>p. p \<notin> set (vnode_hashes X (vnodes ch))) (ring ch)"
    by (simp add: remove_from_ring_def f hs)
  show "nodes (remove_from_ring X ch) = AList.delete X (nodes ch)"
    by (simp add: remove_from_ring_def f)
  show "vnodes (remove_from_ring X ch) = vnodes ch"
    by (simp add: remove_from_ring_def f)
  show "map_of (hashMap (remove_from_ring X ch)) p =
     (if p \<in> set (vnode_hashes X (vnodes ch)) then None else map_of (hashMap ch) p)"
    by (simp add: remove_from_ring_def f hm)
qed

lemma owner_empty: "ring ch = [] \<Longrightarrow> owner ch k = []"
  by (simp add: owner_def GetNode_def)

lemma owner_successor:
  "sorted (ring ch) \<Longrightarrow> ring ch \<noteq> [] \<Longrightarrow>
     owner ch k = index_str (hashMap ch) (successor (set (ring ch)) (hashKey k))"
  by (simp add: owner_def GetNode_sorted first_position_successor)

lemma owner_nodes_update [simp]: "owner (ch\<lparr>nodes := ns\<rparr>) k = owner ch k"
  by (simp add: owner_def GetNode_def)

lemma owner_add:
  assumes "sorted (ring ch)" and "owner (add_to_ring Y ch) k \<noteq> Y"
  shows "owner (add_to_ring Y ch) k = owner ch k"
proof (cases "ring (add_to_ring Y ch) = []")
  case True
  then have "set (sort (ring ch @ vnode_hashes Y (vnodes ch))) = {}"
    by (simp only: add_to_ring_fields set_empty)
  then have "ring ch = []" by simp
  with True show ?thesis by (simp add: owner_empty)
next
  case False
  let ?ch' = "add_to_ring Y ch"
  let ?H = "vnode_hashes Y (vnodes ch)"
  let ?h = "hashKey k"
  have s': "sorted (ring ?ch')" by (simp add: add_to_ring_fields)
  have set': "set (ring ?ch') = set (ring ch) \<union> set ?H" by (simp add: add_to_ring_fields)
  define p where "p = successor (set (ring ?ch')) ?h"
  have o': "owner ?ch' k = index_str (hashMap ?ch') p"
    unfolding p_def by (rule owner_successor[OF s' False])
  have pin: "p \<in> set (ring ?ch')"
    unfolding p_def using False by (intro successor_in) auto
  have notH: "p \<notin> set ?H"
  proof
    assume "p \<in> set ?H"
    then have "index_str (hashMap ?ch') p = Y"
      by (simp add: index_str_def add_to_ring_fields)
    with o' assms(2) show False by simp
  qed
  with pin set' have pr: "p \<in> set (ring ch)" by auto
  then have ne: "ring ch \<noteq> []" by auto
  have "successor (set (ring ch)) ?h = successor (set (ring ?ch')) ?h"
    by (rule successor_subset) (use set' pr in \<open>auto simp: p_def\<close>)
  then have "owner ch k = index_str (hashMap ch) p"
    using owner_successor[OF assms(1) ne, of k] by (simp add: p_def)
  moreover have "index_str (hashMap ?ch') p = index_str (hashMap ch) p"
    using notH by (simp add: index_str_def add_to_ring_fields)
  ultimately show ?thesis using o' by simp
qed

lemma owner_remove:
  assumes "sorted (ring ch)"
    and "\<forall>p \<in> set (ring ch) \<inter> set (vnode_hashes X (vnodes ch)). index_str (hashMap ch) p = X"
    and "owner ch k \<noteq> X"
  shows "owner (remove_from_ring X ch) k = owner ch k"
proof (cases "ring ch = []")
  case True
  then have "ring (remove_from_ring X ch) = []" by (simp add: remove_from_ring_fields)
  with True show ?thesis by (simp add: owner_empty)
next
  case False
  let ?ch' = "remove_from_ring X ch"
  let ?H = "vnode_hashes X (vnodes ch)"
  let ?h = "hashKey k"
  define p where "p = successor (set (ring ch)) ?h"
  have o: "owner ch k = index_str (hashMap ch) p"
    unfolding p_def by (rule owner_successor[OF assms(1) False])
  have pin: "p \<in> set (ring ch)"
    unfolding p_def using False by (intro successor_in) auto
  have notH: "p \<notin> set ?H"
  proof
    assume "p \<in> set ?H"
    with pin assms(2) have "index_str (hashMap ch) p = X" by blast
    with o assms(3) show False by simp
  qed
  have set': "set (ring ?ch') = set (ring ch) - set ?H"
    by (auto simp: remove_from_ring_fields)
  have s': "sorted (ring ?ch')"
    using assms(1) by (simp add: remove_from_ring_fields sorted_wrt_filter)
  have pin': "p \<in> set (ring ?ch')" using pin notH set' by simp
  then have ne': "ring ?ch' \<noteq> []" by auto
  have "successor (set (ring ?ch')) ?h = successor (set (ring ch)) ?h"
    by (rule successor_subset) (use set' pin' in \<open>auto simp: p_def\<close>)
  then have "owner ?ch' k = index_str (hashMap ?ch') p"
    using owner_successor[OF s' ne', of k] by (simp add: p_def)
  moreover have "index_str (hashMap ?ch') p = index_str (hashMap ch) p"
    using notH by (simp add: index_str_def remove_from_ring_fields)
  ultimately show ?thesis using o by simp
qed


section \<open>What RemoveNode and AddNode do to the stores\<close>

lemma redistribute_effect:
  assumes "distinct (map fst data)"
  shows "(for_each (redistribute ch) data ns = Inl NilMapWrite \<longleftrightarrow>
           (\<exists>k \<in> fst ` set data. map_of ns (owner ch k) = None))
    \<and> (\<forall>ns'. for_each (redistribute ch) data ns = Inr ns' \<longrightarrow>
          map fst ns' = map fst ns
          \<and> (well_formed ns \<longrightarrow> well_formed ns')
          \<and> (\<forall>n k. stored ns' n k =
                (if map_of data k \<noteq> None \<and> owner ch k = n then map_of data k
                 else stored ns n k)))"
  using assms
proof (induction data arbitrary: ns)
  case Nil
  show ?case by simp
next
  case (Cons e data)
  obtain k v where e: "e = (k, v)" by (cases e)
  have d: "distinct (map fst data)" and kn: "k \<notin> fst ` set data"
    using Cons.prems by (auto simp: e)
  have mk: "map_of data k = None" using kn by (simp add: map_of_eq_None_iff)
  have step: "redistribute ch e ns = put_record (owner ch k) k v ns"
    by (simp add: redistribute_def e owner_def)
  show ?case
  proof (cases "map_of ns (owner ch k)")
    case None
    then have "put_record (owner ch k) k v ns = Inl NilMapWrite"
      by (simp add: put_record_def)
    then have "for_each (redistribute ch) (e # data) ns = Inl NilMapWrite"
      by (simp add: step)
    moreover have "\<exists>k' \<in> fst ` set (e # data). map_of ns (owner ch k') = None"
      using None by (auto simp: e)
    ultimately show ?thesis by simp
  next
    case (Some d0)
    define ns1 where "ns1 = AList.update (owner ch k) (AList.update k v d0) ns"
    have p: "put_record (owner ch k) k v ns = Inr ns1"
      using Some by (simp add: put_record_Inr ns1_def)
    have fe: "for_each (redistribute ch) (e # data) ns = for_each (redistribute ch) data ns1"
      by (simp add: step p)
    have nm: "map fst ns1 = map fst ns" by (rule names_put[OF p])
    have reg: "\<And>x. map_of ns1 x = None \<longleftrightarrow> map_of ns x = None"
      using nm registered_iff[of ns1] registered_iff[of ns] by metis
    have wf: "well_formed ns \<Longrightarrow> well_formed ns1" by (rule well_formed_put[OF p])
    have st: "\<And>n' k'. stored ns1 n' k' =
        (if n' = owner ch k \<and> k' = k then Some v else stored ns n' k')"
      by (rule stored_put[OF p])
    note IH = Cons.IH[OF d, of ns1]
    have 1: "for_each (redistribute ch) (e # data) ns = Inl NilMapWrite \<longleftrightarrow>
           (\<exists>k' \<in> fst ` set (e # data). map_of ns (owner ch k') = None)"
    proof -
      have "for_each (redistribute ch) (e # data) ns = Inl NilMapWrite \<longleftrightarrow>
          for_each (redistribute ch) data ns1 = Inl NilMapWrite" by (simp only: fe)
      also have "\<dots> \<longleftrightarrow> (\<exists>k' \<in> fst ` set data. map_of ns1 (owner ch k') = None)"
        using IH by blast
      also have "\<dots> \<longleftrightarrow> (\<exists>k' \<in> fst ` set data. map_of ns (owner ch k') = None)"
        by (simp only: reg)
      also have "\<dots> \<longleftrightarrow> (\<exists>k' \<in> fst ` set (e # data). map_of ns (owner ch k') = None)"
        using Some by (auto simp: e)
      finally show ?thesis .
    qed
    have 2: "\<forall>ns'. for_each (redistribute ch) (e # data) ns = Inr ns' \<longrightarrow>
          map fst ns' = map fst ns
          \<and> (well_formed ns \<longrightarrow> well_formed ns')
          \<and> (\<forall>n k'. stored ns' n k' =
                (if map_of (e # data) k' \<noteq> None \<and> owner ch k' = n then map_of (e # data) k'
                 else stored ns n k'))"
    proof (intro allI impI)
      fix ns' assume r: "for_each (redistribute ch) (e # data) ns = Inr ns'"
      then have r1: "for_each (redistribute ch) data ns1 = Inr ns'" by (simp only: fe)
      from IH r1 have a: "map fst ns' = map fst ns1"
        and b: "well_formed ns1 \<longrightarrow> well_formed ns'"
        and c: "\<And>n k'. stored ns' n k' =
                (if map_of data k' \<noteq> None \<and> owner ch k' = n then map_of data k'
                 else stored ns1 n k')"
        by blast+
      have "\<forall>n k'. stored ns' n k' =
                (if map_of (e # data) k' \<noteq> None \<and> owner ch k' = n then map_of (e # data) k'
                 else stored ns n k')"
        using mk by (auto simp: c st e)
      then show "map fst ns' = map fst ns
          \<and> (well_formed ns \<longrightarrow> well_formed ns')
          \<and> (\<forall>n k'. stored ns' n k' =
                (if map_of (e # data) k' \<noteq> None \<and> owner ch k' = n then map_of (e # data) k'
                 else stored ns n k'))"
        using a b nm wf by simp
    qed
    show ?thesis using 1 2 by blast
  qed
qed

lemma stored_delete_node:
  "stored (AList.delete X ns) n k = (if n = X then None else stored ns n k)"
  by (simp add: stored_def delete_conv')

lemma well_formed_delete_node: "well_formed ns \<Longrightarrow> well_formed (AList.delete X ns)"
  unfolding well_formed_def
  using distinct_delete[of ns X] by (auto simp: AList.delete_eq)

lemma stored_self: "map_of ns n = Some d \<Longrightarrow> stored ns n k = map_of d k"
  by (simp add: stored_def)

lemma stored_unregistered: "map_of ns n = None \<Longrightarrow> stored ns n k = None"
  by (simp add: stored_def)

lemma panic_cases: "(r :: panic + 'a) = Inl NilMapWrite \<or> (\<exists>x. r = Inr x)"
  by (cases r) (auto intro: panic.exhaust)

lemma RemoveNode_effect:
  assumes "well_formed (nodes ch)" and "map_of (nodes ch) X = Some data"
  shows "(RemoveNode X ch = Inl NilMapWrite \<longleftrightarrow>
           (\<exists>k \<in> fst ` set data.
              map_of (AList.delete X (nodes ch)) (owner (remove_from_ring X ch) k) = None))
    \<and> (\<forall>ch' e. RemoveNode X ch = Inr (ch', e) \<longrightarrow>
          e = None
          \<and> ring ch' = ring (remove_from_ring X ch)
          \<and> hashMap ch' = hashMap (remove_from_ring X ch)
          \<and> vnodes ch' = vnodes ch
          \<and> map fst (nodes ch') = map fst (AList.delete X (nodes ch))
          \<and> well_formed (nodes ch')
          \<and> (\<forall>k. owner ch' k = owner (remove_from_ring X ch) k)
          \<and> (\<forall>n k. stored (nodes ch') n k =
                (if stored (nodes ch) X k \<noteq> None \<and> owner ch' k = n then stored (nodes ch) X k
                 else if n = X then None else stored (nodes ch) n k)))"
proof -
  let ?ch1 = "remove_from_ring X ch"
  let ?ns0 = "AList.delete X (nodes ch)"
  have dd: "distinct (map fst data)" by (rule well_formed_store[OF assms])
  have n1: "nodes ?ch1 = ?ns0" by (simp add: remove_from_ring_fields)
  have wf0: "well_formed ?ns0" by (rule well_formed_delete_node[OF assms(1)])
  have R: "RemoveNode X ch =
      (case for_each (redistribute ?ch1) data ?ns0 of
         Inl p \<Rightarrow> Inl p | Inr ns \<Rightarrow> Inr (?ch1\<lparr>nodes := ns\<rparr>, None))"
    using assms(2) by (simp add: RemoveNode_def Let_def n1)
  note E = redistribute_effect[OF dd, of ?ch1 ?ns0]
  have 1: "RemoveNode X ch = Inl NilMapWrite \<longleftrightarrow>
           (\<exists>k \<in> fst ` set data. map_of ?ns0 (owner ?ch1 k) = None)"
  proof -
    have "RemoveNode X ch = Inl NilMapWrite \<longleftrightarrow>
        for_each (redistribute ?ch1) data ?ns0 = Inl NilMapWrite"
      unfolding R by (auto split: sum.splits intro: panic.exhaust)
    then show ?thesis using E by simp
  qed
  have 2: "\<forall>ch' e. RemoveNode X ch = Inr (ch', e) \<longrightarrow>
          e = None
          \<and> ring ch' = ring ?ch1
          \<and> hashMap ch' = hashMap ?ch1
          \<and> vnodes ch' = vnodes ch
          \<and> map fst (nodes ch') = map fst ?ns0
          \<and> well_formed (nodes ch')
          \<and> (\<forall>k. owner ch' k = owner ?ch1 k)
          \<and> (\<forall>n k. stored (nodes ch') n k =
                (if stored (nodes ch) X k \<noteq> None \<and> owner ch' k = n then stored (nodes ch) X k
                 else if n = X then None else stored (nodes ch) n k))"
  proof (intro allI impI)
    fix ch' e assume r: "RemoveNode X ch = Inr (ch', e)"
    then obtain ns where f: "for_each (redistribute ?ch1) data ?ns0 = Inr ns"
      and c: "ch' = ?ch1\<lparr>nodes := ns\<rparr>" and e: "e = None"
      unfolding R by (auto split: sum.splits)
    from E f have a: "map fst ns = map fst ?ns0" and b: "well_formed ns"
      and s: "\<And>n k. stored ns n k =
                (if map_of data k \<noteq> None \<and> owner ?ch1 k = n then map_of data k
                 else stored ?ns0 n k)"
      using wf0 by blast+
    have o: "\<And>k. owner ch' k = owner ?ch1 k" by (simp add: c)
    have "\<And>n k. stored (nodes ch') n k =
                (if stored (nodes ch) X k \<noteq> None \<and> owner ch' k = n then stored (nodes ch) X k
                 else if n = X then None else stored (nodes ch) n k)"
      by (simp add: c s stored_self[OF assms(2)] stored_delete_node)
    then show "e = None
          \<and> ring ch' = ring ?ch1
          \<and> hashMap ch' = hashMap ?ch1
          \<and> vnodes ch' = vnodes ch
          \<and> map fst (nodes ch') = map fst ?ns0
          \<and> well_formed (nodes ch')
          \<and> (\<forall>k. owner ch' k = owner ?ch1 k)
          \<and> (\<forall>n k. stored (nodes ch') n k =
                (if stored (nodes ch) X k \<noteq> None \<and> owner ch' k = n then stored (nodes ch) X k
                 else if n = X then None else stored (nodes ch) n k))"
      using e a b o by (simp add: c remove_from_ring_fields)
  qed
  show ?thesis using 1 2 by blast
qed


lemma AddNode_effect:
  assumes "well_formed (nodes ch)" and "map_of (nodes ch) Y = None"
  shows "\<exists>ns rep. AddNode Y ch = Inr ((add_to_ring Y ch)\<lparr>nodes := ns\<rparr>, rep)
    \<and> set (map fst ns) = insert Y (set (map fst (nodes ch)))
    \<and> well_formed ns
    \<and> (\<forall>n k. n \<noteq> Y \<longrightarrow> stored ns n k =
          (if owner (add_to_ring Y ch) k = Y then None else stored (nodes ch) n k))
    \<and> (\<forall>k v. stored ns Y k = Some v \<longrightarrow>
          owner (add_to_ring Y ch) k = Y \<and> (\<exists>n. stored (nodes ch) n k = Some v))
    \<and> (\<forall>n k. stored (nodes ch) n k \<noteq> None \<and> owner (add_to_ring Y ch) k = Y \<longrightarrow>
          stored ns Y k \<noteq> None)"
proof -
  let ?ch1 = "add_to_ring Y ch"
  define ns1 where "ns1 = AList.update Y [] (nodes ch)"
  let ?P = "\<lambda>k. owner ?ch1 k = Y"
  define moves where "moves = concat (map (\<lambda>e. if fst e = Y then []
          else map (Pair (fst e)) (filter ?P (map fst (snd e)))) ns1)"
  have n1: "nodes ?ch1 = ns1" by (simp add: add_to_ring_fields ns1_def)
  have wf1: "well_formed ns1"
    unfolding ns1_def using assms(1) by (intro well_formed_update) simp_all
  have dn1: "distinct (map fst ns1)" using wf1 by (simp add: well_formed_def)
  have st1: "\<And>n k. stored ns1 n k = (if n = Y then None else stored (nodes ch) n k)"
    by (simp add: ns1_def stored_update)
  have names1: "set (map fst ns1) = insert Y (set (map fst (nodes ch)))"
    using dom_update[of Y "[]" "nodes ch"] by (simp add: ns1_def)
  have reg: "map_of ns1 Y \<noteq> None" by (simp add: ns1_def update_conv')
  have flat: "concat (map (\<lambda>(src, keys). map (Pair src) keys) (collect_keys ?ch1 Y)) = moves"
    using collect_keys_flat[of ?ch1 Y] dn1 by (simp add: n1 moves_def)
  have mset: "set moves = {(n, k). n \<noteq> Y \<and> ?P k \<and> stored ns1 n k \<noteq> None}"
    unfolding moves_def by (rule moves_set[OF dn1])
  have mdist: "distinct moves" unfolding moves_def by (rule moves_distinct[OF wf1])
  have pre: "\<forall>(src, k) \<in> set moves. src \<noteq> Y \<and> stored ns1 src k \<noteq> None"
    unfolding mset by simp
  from moves_effect[OF reg mdist pre] obtain ns' where
    fe: "for_each (\<lambda>(s, k). move_key Y s k) moves ns1 = Inr ns'"
    and nm: "map fst ns' = map fst ns1"
    and wf': "well_formed ns1 \<longrightarrow> well_formed ns'"
    and a: "\<And>n k. n \<noteq> Y \<Longrightarrow>
          stored ns' n k = (if (n, k) \<in> set moves then None else stored ns1 n k)"
    and b: "\<And>k v. stored ns' Y k = Some v \<Longrightarrow>
          stored ns1 Y k = Some v \<or> (\<exists>n. (n, k) \<in> set moves \<and> stored ns1 n k = Some v)"
    and c: "\<And>k. stored ns1 Y k \<noteq> None \<or> (\<exists>n. (n, k) \<in> set moves) \<Longrightarrow> stored ns' Y k \<noteq> None"
    by blast
  have mk: "move_keys Y (collect_keys ?ch1 Y) ns1 = Inr ns'"
    by (simp only: move_keys_flat flat fe)
  have run: "AddNode Y ch = Inr (?ch1\<lparr>nodes := ns'\<rparr>, move_report (collect_keys ?ch1 Y))"
    using assms(2) by (simp add: AddNode_def Let_def n1 mk)
  have A: "\<forall>n k. n \<noteq> Y \<longrightarrow> stored ns' n k =
          (if ?P k then None else stored (nodes ch) n k)"
    by (auto simp: a mset st1)
  have B: "\<forall>k v. stored ns' Y k = Some v \<longrightarrow>
          ?P k \<and> (\<exists>n. stored (nodes ch) n k = Some v)"
  proof (intro allI impI)
    fix k v assume "stored ns' Y k = Some v"
    from b[OF this] obtain n where "(n, k) \<in> set moves" "stored ns1 n k = Some v"
      by (auto simp: st1)
    then show "?P k \<and> (\<exists>n. stored (nodes ch) n k = Some v)"
      by (auto simp: mset st1 split: if_splits)
  qed
  have C: "\<forall>n k. stored (nodes ch) n k \<noteq> None \<and> ?P k \<longrightarrow> stored ns' Y k \<noteq> None"
  proof (intro allI impI)
    fix n k assume h: "stored (nodes ch) n k \<noteq> None \<and> ?P k"
    have "n \<noteq> Y" using h stored_unregistered[OF assms(2)] by auto
    then have "(n, k) \<in> set moves" using h by (simp add: mset st1)
    then show "stored ns' Y k \<noteq> None" using c by blast
  qed
  show ?thesis
    using run names1 wf1 wf' nm A B C by (intro exI[of _ ns'] exI) simp
qed


section \<open>Placement, key uniqueness and record counts in terms of lookups\<close>

lemma placed_iff:
  assumes "distinct (map fst (nodes ch))"
  shows "placed ch \<longleftrightarrow> (\<forall>n k. stored (nodes ch) n k \<noteq> None \<longrightarrow> owner ch k = n)"
proof
  assume p: "placed ch"
  show "\<forall>n k. stored (nodes ch) n k \<noteq> None \<longrightarrow> owner ch k = n"
  proof (intro allI impI)
    fix n k assume "stored (nodes ch) n k \<noteq> None"
    then obtain d where d: "(n, d) \<in> set (nodes ch)" "k \<in> fst ` set d"
      unfolding stored_iff[OF assms] by blast
    then obtain r where r: "r \<in> set d" "fst r = k" by auto
    from p d(1) r(1) have "owner ch (fst r) = fst (n, d)"
      unfolding placed_def by (metis snd_conv)
    then show "owner ch k = n" using r(2) by simp
  qed
next
  assume s: "\<forall>n k. stored (nodes ch) n k \<noteq> None \<longrightarrow> owner ch k = n"
  show "placed ch"
    unfolding placed_def
  proof (intro ballI)
    fix e r assume e: "e \<in> set (nodes ch)" and r: "r \<in> set (snd e)"
    have "(fst e, snd e) \<in> set (nodes ch)" using e by simp
    moreover have "fst r \<in> fst ` set (snd e)" using r by simp
    ultimately have "stored (nodes ch) (fst e) (fst r) \<noteq> None"
      unfolding stored_iff[OF assms] by blast
    then show "owner ch (fst r) = fst e" using s by blast
  qed
qed

lemma unique_keys_Cons:
  "unique_keys (e # ns) \<longleftrightarrow>
     distinct (map fst (snd e)) \<and> unique_keys ns
     \<and> (\<forall>e' \<in> set ns. fst ` set (snd e) \<inter> fst ` set (snd e') = {})"
  by (auto simp: unique_keys_def)

lemma unique_keys_iff:
  assumes "distinct (map fst ns)"
  shows "unique_keys ns \<longleftrightarrow>
     (\<forall>e \<in> set ns. distinct (map fst (snd e)))
     \<and> (\<forall>n n' k. stored ns n k \<noteq> None \<and> stored ns n' k \<noteq> None \<longrightarrow> n = n')"
  using assms
proof (induction ns)
  case Nil
  show ?case by (simp add: unique_keys_def stored_def)
next
  case (Cons e ns)
  have dn: "distinct (map fst ns)" and en: "fst e \<notin> fst ` set ns"
    using Cons.prems by auto
  have st: "\<And>n k. stored (e # ns) n k =
      (if n = fst e then map_of (snd e) k else stored ns n k)"
    by (cases e) (simp add: stored_def)
  have un: "\<And>k. stored ns (fst e) k = None"
    using en map_of_eq_None_iff[of ns "fst e"] by (simp add: stored_def)
  have me: "\<And>k. map_of (snd e) k \<noteq> None \<longleftrightarrow> k \<in> fst ` set (snd e)"
    by (simp add: map_of_eq_None_iff)
  have cross: "(\<forall>e' \<in> set ns. fst ` set (snd e) \<inter> fst ` set (snd e') = {}) \<longleftrightarrow>
      (\<forall>n k. k \<in> fst ` set (snd e) \<longrightarrow> stored ns n k = None)"
  proof
    assume a: "\<forall>e' \<in> set ns. fst ` set (snd e) \<inter> fst ` set (snd e') = {}"
    show "\<forall>n k. k \<in> fst ` set (snd e) \<longrightarrow> stored ns n k = None"
    proof (intro allI impI, rule ccontr)
      fix n k assume k: "k \<in> fst ` set (snd e)" and "stored ns n k \<noteq> None"
      then obtain d where d: "(n, d) \<in> set ns" "k \<in> fst ` set d"
        unfolding stored_iff[OF dn] by blast
      from a d(1) have "fst ` set (snd e) \<inter> fst ` set (snd (n, d)) = {}" by blast
      with k d(2) show False by auto
    qed
  next
    assume b: "\<forall>n k. k \<in> fst ` set (snd e) \<longrightarrow> stored ns n k = None"
    show "\<forall>e' \<in> set ns. fst ` set (snd e) \<inter> fst ` set (snd e') = {}"
    proof (intro ballI, rule ccontr)
      fix e' assume e': "e' \<in> set ns" and "fst ` set (snd e) \<inter> fst ` set (snd e') \<noteq> {}"
      then obtain k where k: "k \<in> fst ` set (snd e)" "k \<in> fst ` set (snd e')" by blast
      have "(fst e', snd e') \<in> set ns" using e' by simp
      then have "stored ns (fst e') k \<noteq> None"
        unfolding stored_iff[OF dn] using k(2) by blast
      moreover have "stored ns (fst e') k = None"
        using b[THEN spec[where x="fst e'"], THEN spec[where x=k]] k(1) by simp
      ultimately show False by simp
    qed
  qed
  have sem: "(\<forall>n n' k. stored (e # ns) n k \<noteq> None \<and> stored (e # ns) n' k \<noteq> None \<longrightarrow> n = n')
      \<longleftrightarrow> (\<forall>n k. k \<in> fst ` set (snd e) \<longrightarrow> stored ns n k = None)
        \<and> (\<forall>n n' k. stored ns n k \<noteq> None \<and> stored ns n' k \<noteq> None \<longrightarrow> n = n')"
    (is "?L \<longleftrightarrow> ?R1 \<and> ?R2")
  proof (intro iffI conjI)
    assume L: ?L
    show ?R1
    proof (intro allI impI, rule ccontr)
      fix n k assume k: "k \<in> fst ` set (snd e)" and s: "stored ns n k \<noteq> None"
      have ne: "n \<noteq> fst e" using s un by auto
      have "stored (e # ns) (fst e) k \<noteq> None" using k me[of k] by (simp add: st)
      moreover have "stored (e # ns) n k \<noteq> None" using s ne by (simp add: st)
      ultimately have "fst e = n" using L by blast
      with ne show False by simp
    qed
    show ?R2
    proof (intro allI impI)
      fix n n' k assume s: "stored ns n k \<noteq> None \<and> stored ns n' k \<noteq> None"
      then have "n \<noteq> fst e" "n' \<noteq> fst e" using un by auto
      then have "stored (e # ns) n k \<noteq> None \<and> stored (e # ns) n' k \<noteq> None"
        using s by (simp add: st)
      then show "n = n'" using L by blast
    qed
  next
    assume R: "?R1 \<and> ?R2"
    have r1: "\<And>n k. k \<in> fst ` set (snd e) \<Longrightarrow> stored ns n k = None"
      using conjunct1[OF R, rule_format] by simp
    have r2: "\<And>n n' k. stored ns n k \<noteq> None \<Longrightarrow> stored ns n' k \<noteq> None \<Longrightarrow> n = n'"
      using conjunct2[OF R, rule_format] by simp
    show ?L
    proof (intro allI impI)
      fix n n' k assume s: "stored (e # ns) n k \<noteq> None \<and> stored (e # ns) n' k \<noteq> None"
      show "n = n'"
      proof (cases "n = fst e"; cases "n' = fst e")
        assume "n = fst e" "n' = fst e" then show ?thesis by simp
      next
        assume a: "n = fst e" "n' \<noteq> fst e"
        then have "k \<in> fst ` set (snd e)" "stored ns n' k \<noteq> None"
          using s me[of k] by (simp_all add: st)
        then show ?thesis using r1[of k n'] by simp
      next
        assume a: "n \<noteq> fst e" "n' = fst e"
        then have "k \<in> fst ` set (snd e)" "stored ns n k \<noteq> None"
          using s me[of k] by (simp_all add: st)
        then show ?thesis using r1[of k n] by simp
      next
        assume a: "n \<noteq> fst e" "n' \<noteq> fst e"
        then have "stored ns n k \<noteq> None" "stored ns n' k \<noteq> None"
          using s by (simp_all add: st)
        then show ?thesis by (rule r2)
      qed
    qed
  qed
  show ?case
    unfolding unique_keys_Cons Cons.IH[OF dn] sem cross by auto
qed

lemma total_records_card:
  assumes "distinct (map fst (nodes ch))" and "unique_keys (nodes ch)"
  shows "total_records ch = card {k. \<exists>n. stored (nodes ch) n k \<noteq> None}"
proof -
  let ?ks = "concat (map (\<lambda>e. map fst (snd e)) (nodes ch))"
  have "total_records ch = length ?ks"
    by (simp add: total_records_def length_concat comp_def)
  also have "\<dots> = card (set ?ks)"
    using assms(2) distinct_card[of ?ks] unfolding unique_keys_def by (simp only:)
  also have "set ?ks = {k. \<exists>n. stored (nodes ch) n k \<noteq> None}"
  proof -
    have "\<And>k. k \<in> set ?ks \<longleftrightarrow> (\<exists>n d. (n, d) \<in> set (nodes ch) \<and> k \<in> fst ` set d)"
      by force
    then show ?thesis unfolding stored_iff[OF assms(1)] by blast
  qed
  finally show ?thesis .
qed


section \<open>Membership changes: placement, frame, conservation, values, panics\<close>

lemma AddNode_new:
  assumes "well_formed (nodes ch)" and "map_of (nodes ch) Y = None"
    and "AddNode Y ch = Inr (ch', rep)"
  shows "ring ch' = sort (ring ch @ vnode_hashes Y (vnodes ch))"
    and "hashMap ch' = hashMap (add_to_ring Y ch)"
    and "vnodes ch' = vnodes ch"
    and "owner ch' k = owner (add_to_ring Y ch) k"
    and "set (map fst (nodes ch')) = insert Y (set (map fst (nodes ch)))"
    and "well_formed (nodes ch')"
    and "n \<noteq> Y \<Longrightarrow> stored (nodes ch') n k =
          (if owner ch' k = Y then None else stored (nodes ch) n k)"
    and "stored (nodes ch') Y k = Some v \<Longrightarrow>
          owner ch' k = Y \<and> (\<exists>n. stored (nodes ch) n k = Some v)"
    and "stored (nodes ch) n k \<noteq> None \<Longrightarrow> owner ch' k = Y \<Longrightarrow>
          stored (nodes ch') Y k \<noteq> None"
proof -
  from AddNode_effect[OF assms(1,2)] obtain ns rep0 where
    r: "AddNode Y ch = Inr ((add_to_ring Y ch)\<lparr>nodes := ns\<rparr>, rep0)"
    and nm: "set (map fst ns) = insert Y (set (map fst (nodes ch)))"
    and wf: "well_formed ns"
    and A: "\<And>n k. n \<noteq> Y \<Longrightarrow> stored ns n k =
          (if owner (add_to_ring Y ch) k = Y then None else stored (nodes ch) n k)"
    and B: "\<And>k v. stored ns Y k = Some v \<Longrightarrow>
          owner (add_to_ring Y ch) k = Y \<and> (\<exists>n. stored (nodes ch) n k = Some v)"
    and C: "\<And>n k. stored (nodes ch) n k \<noteq> None \<and> owner (add_to_ring Y ch) k = Y \<Longrightarrow>
          stored ns Y k \<noteq> None"
    by blast
  have c: "ch' = (add_to_ring Y ch)\<lparr>nodes := ns\<rparr>" using r assms(3) by simp
  show "ring ch' = sort (ring ch @ vnode_hashes Y (vnodes ch))"
    by (simp add: c add_to_ring_fields)
  show "hashMap ch' = hashMap (add_to_ring Y ch)" by (simp add: c)
  show "vnodes ch' = vnodes ch" by (simp add: c add_to_ring_fields)
  show o: "\<And>k. owner ch' k = owner (add_to_ring Y ch) k" by (simp add: c)
  show "set (map fst (nodes ch')) = insert Y (set (map fst (nodes ch)))"
    using nm by (simp add: c)
  show "well_formed (nodes ch')" using wf by (simp add: c)
  show "n \<noteq> Y \<Longrightarrow> stored (nodes ch') n k =
          (if owner ch' k = Y then None else stored (nodes ch) n k)"
    using A[of n k] by (simp add: c)
  show "stored (nodes ch') Y k = Some v \<Longrightarrow>
          owner ch' k = Y \<and> (\<exists>n. stored (nodes ch) n k = Some v)"
    using B[of k v] by (simp add: c)
  show "stored (nodes ch) n k \<noteq> None \<Longrightarrow> owner ch' k = Y \<Longrightarrow>
          stored (nodes ch') Y k \<noteq> None"
    using C[of n k] by (simp add: c)
qed

lemma AddNode_old:
  "map_of (nodes ch) Y \<noteq> None \<Longrightarrow> AddNode Y ch = Inr (ch', rep) \<Longrightarrow> ch' = ch"
  by (simp add: AddNode_def)

lemma RemoveNode_old:
  "map_of (nodes ch) X = None \<Longrightarrow> RemoveNode X ch = Inr (ch', e) \<Longrightarrow> ch' = ch"
  by (simp add: RemoveNode_def)

lemma RemoveNode_done:
  assumes "well_formed (nodes ch)" and "map_of (nodes ch) X = Some data"
    and "RemoveNode X ch = Inr (ch', e)"
  shows "e = None"
    and "ring ch' = filter (\<lambda>p. p \<notin> set (vnode_hashes X (vnodes ch))) (ring ch)"
    and "hashMap ch' = hashMap (remove_from_ring X ch)"
    and "vnodes ch' = vnodes ch"
    and "owner ch' k = owner (remove_from_ring X ch) k"
    and "map fst (nodes ch') = map fst (AList.delete X (nodes ch))"
    and "well_formed (nodes ch')"
    and "stored (nodes ch') n k =
           (if stored (nodes ch) X k \<noteq> None \<and> owner ch' k = n then stored (nodes ch) X k
            else if n = X then None else stored (nodes ch) n k)"
    and "stored (nodes ch) X k \<noteq> None \<Longrightarrow> owner ch' k \<noteq> X"
proof -
  note E = RemoveNode_effect[OF assms(1,2)]
  from E assms(3) show "e = None" by blast
  from E assms(3) have "ring ch' = ring (remove_from_ring X ch)" by blast
  then show "ring ch' = filter (\<lambda>p. p \<notin> set (vnode_hashes X (vnodes ch))) (ring ch)"
    by (simp add: remove_from_ring_fields)
  from E assms(3) show "hashMap ch' = hashMap (remove_from_ring X ch)" by blast
  from E assms(3) show "vnodes ch' = vnodes ch" by blast
  from E assms(3) show o: "\<And>k. owner ch' k = owner (remove_from_ring X ch) k" by blast
  from E assms(3) show "map fst (nodes ch') = map fst (AList.delete X (nodes ch))" by blast
  from E assms(3) show "well_formed (nodes ch')" by blast
  from E assms(3) show "stored (nodes ch') n k =
           (if stored (nodes ch) X k \<noteq> None \<and> owner ch' k = n then stored (nodes ch) X k
            else if n = X then None else stored (nodes ch) n k)" by blast
  show "stored (nodes ch) X k \<noteq> None \<Longrightarrow> owner ch' k \<noteq> X"
  proof
    assume s: "stored (nodes ch) X k \<noteq> None" and x: "owner ch' k = X"
    have kd: "k \<in> fst ` set data"
      using s map_of_eq_None_iff[of data k] by (simp add: stored_self[OF assms(2)])
    have "map_of (AList.delete X (nodes ch)) (owner (remove_from_ring X ch) k) = None"
      using x by (simp add: o delete_conv')
    with kd have "RemoveNode X ch = Inl NilMapWrite" using E by blast
    with assms(3) show False by simp
  qed
qed


lemma well_formed_names: "well_formed ns \<Longrightarrow> distinct (map fst ns)"
  by (simp add: well_formed_def)

lemma AddNode_placed:
  assumes wf: "well_formed (nodes ch)" and so: "sorted (ring ch)" and pl: "placed ch"
    and run: "AddNode Y ch = Inr (ch', rep)"
  shows "well_formed (nodes ch') \<and> sorted (ring ch') \<and> placed ch'"
proof (cases "map_of (nodes ch) Y")
  case (Some d)
  then have "ch' = ch" using run by (intro AddNode_old[of ch Y]) auto
  then show ?thesis using wf so pl by simp
next
  case None
  note N = AddNode_new[OF wf None run]
  have P: "\<And>n k. stored (nodes ch) n k \<noteq> None \<Longrightarrow> owner ch k = n"
    using pl placed_iff[OF well_formed_names[OF wf]] by blast
  have "\<forall>n k. stored (nodes ch') n k \<noteq> None \<longrightarrow> owner ch' k = n"
  proof (intro allI impI)
    fix n k assume s: "stored (nodes ch') n k \<noteq> None"
    show "owner ch' k = n"
    proof (cases "n = Y")
      case True
      then obtain v where "stored (nodes ch') Y k = Some v" using s by auto
      from N(8)[OF this] True show ?thesis by simp
    next
      case False
      from N(7)[OF False, of k] s have ny: "owner ch' k \<noteq> Y"
        and st: "stored (nodes ch) n k \<noteq> None"
        by (auto split: if_splits)
      have "owner (add_to_ring Y ch) k \<noteq> Y" using ny by (simp add: N(4))
      from owner_add[OF so this] have "owner ch' k = owner ch k" by (simp add: N(4))
      then show ?thesis using P[OF st] by simp
    qed
  qed
  then have "placed ch'"
    using placed_iff[OF well_formed_names[OF N(6)]] by blast
  moreover have "sorted (ring ch')" by (simp add: N(1))
  ultimately show ?thesis using N(6) by simp
qed

lemma RemoveNode_placed:
  assumes wf: "well_formed (nodes ch)" and so: "sorted (ring ch)" and pl: "placed ch"
    and own: "owns_positions X ch"
    and run: "RemoveNode X ch = Inr (ch', e)"
  shows "well_formed (nodes ch') \<and> sorted (ring ch') \<and> placed ch'"
proof (cases "map_of (nodes ch) X")
  case None
  then have "ch' = ch" using run by (intro RemoveNode_old[of ch X])
  then show ?thesis using wf so pl by simp
next
  case (Some data)
  note D = RemoveNode_done[OF wf Some run]
  have P: "\<And>n k. stored (nodes ch) n k \<noteq> None \<Longrightarrow> owner ch k = n"
    using pl placed_iff[OF well_formed_names[OF wf]] by blast
  have "\<forall>n k. stored (nodes ch') n k \<noteq> None \<longrightarrow> owner ch' k = n"
  proof (intro allI impI)
    fix n k assume s: "stored (nodes ch') n k \<noteq> None"
    show "owner ch' k = n"
    proof (cases "stored (nodes ch) X k \<noteq> None \<and> owner ch' k = n")
      case True
      then show ?thesis by simp
    next
      case False
      with s D(8)[of n k] have nx: "n \<noteq> X" and st: "stored (nodes ch) n k \<noteq> None"
        by (auto split: if_splits)
      have "owner ch k \<noteq> X" using P[OF st] nx by simp
      from owner_remove[OF so own[unfolded owns_positions_def] this] show ?thesis
        using P[OF st] by (simp add: D(5))
    qed
  qed
  then have "placed ch'"
    using placed_iff[OF well_formed_names[OF D(7)]] by blast
  moreover have "sorted (ring ch')" using so by (simp add: D(2) sorted_wrt_filter)
  ultimately show ?thesis using D(7) by simp
qed

lemma AddNode_returns:
  assumes "well_formed (nodes ch)"
  shows "\<exists>ch' rep. AddNode Y ch = Inr (ch', rep)"
proof (cases "map_of (nodes ch) Y")
  case None
  from AddNode_effect[OF assms None] show ?thesis by blast
next
  case (Some d)
  then show ?thesis by (simp add: AddNode_def)
qed






lemma unique_keys_sem:
  assumes "well_formed ns" and "unique_keys ns"
    and "stored ns n k \<noteq> None" and "stored ns n' k \<noteq> None"
  shows "n = n'"
proof -
  have "\<forall>n n' k. stored ns n k \<noteq> None \<and> stored ns n' k \<noteq> None \<longrightarrow> n = n'"
    using unique_keys_iff[OF well_formed_names[OF assms(1)]] assms(2) by simp
  then show ?thesis using assms(3,4) by (elim allE[of _ n] allE[of _ n'] allE[of _ k]) simp
qed

lemma unique_keysI:
  assumes "well_formed ns"
    and "\<And>n n' k. stored ns n k \<noteq> None \<Longrightarrow> stored ns n' k \<noteq> None \<Longrightarrow> n = n'"
  shows "unique_keys ns"
proof -
  have "\<forall>e \<in> set ns. distinct (map fst (snd e))" using assms(1) by (simp add: well_formed_def)
  moreover have "\<forall>n n' k. stored ns n k \<noteq> None \<and> stored ns n' k \<noteq> None \<longrightarrow> n = n'"
  proof (intro allI impI)
    fix n n' k assume "stored ns n k \<noteq> None \<and> stored ns n' k \<noteq> None"
    then show "n = n'" using assms(2)[of n k n'] by simp
  qed
  ultimately show ?thesis
    using unique_keys_iff[OF well_formed_names[OF assms(1)]] by simp
qed

lemma AddNode_unique:
  assumes wf: "well_formed (nodes ch)" and uk: "unique_keys (nodes ch)"
    and run: "AddNode Y ch = Inr (ch', rep)"
  shows "well_formed (nodes ch') \<and> unique_keys (nodes ch')
    \<and> {k. \<exists>n. stored (nodes ch') n k \<noteq> None} = {k. \<exists>n. stored (nodes ch) n k \<noteq> None}"
proof (cases "map_of (nodes ch) Y")
  case (Some d)
  then have "ch' = ch" using run by (intro AddNode_old[of ch Y]) auto
  then show ?thesis using wf uk by simp
next
  case None
  note N = AddNode_new[OF wf None run]
  have unreg: "\<And>k. stored (nodes ch) Y k = None" by (rule stored_unregistered[OF None])
  have sem': "\<And>n n' k. stored (nodes ch') n k \<noteq> None \<Longrightarrow> stored (nodes ch') n' k \<noteq> None
      \<Longrightarrow> n = n'"
  proof -
    fix n n' k
    assume a: "stored (nodes ch') n k \<noteq> None" and b: "stored (nodes ch') n' k \<noteq> None"
    have onY: "\<And>m. m \<noteq> Y \<Longrightarrow> stored (nodes ch') Y k \<noteq> None \<Longrightarrow> stored (nodes ch') m k = None"
    proof -
      fix m assume m: "m \<noteq> Y" and y: "stored (nodes ch') Y k \<noteq> None"
      then obtain v where "stored (nodes ch') Y k = Some v" by auto
      from N(8)[OF this] have "owner ch' k = Y" by simp
      then show "stored (nodes ch') m k = None" using N(7)[OF m, of k] by simp
    qed
    show "n = n'"
    proof (cases "n = Y"; cases "n' = Y")
      assume "n = Y" "n' = Y" then show ?thesis by simp
    next
      assume "n = Y" "n' \<noteq> Y"
      then show ?thesis using onY[of n'] a b by simp
    next
      assume "n \<noteq> Y" "n' = Y"
      then show ?thesis using onY[of n] a b by simp
    next
      assume c: "n \<noteq> Y" "n' \<noteq> Y"
      have "stored (nodes ch) n k \<noteq> None"
        using a N(7)[OF c(1), of k] by (simp split: if_splits)
      moreover have "stored (nodes ch) n' k \<noteq> None"
        using b N(7)[OF c(2), of k] by (simp split: if_splits)
      ultimately show ?thesis by (rule unique_keys_sem[OF wf uk])
    qed
  qed
  have keys: "\<And>k. (\<exists>n. stored (nodes ch') n k \<noteq> None) \<longleftrightarrow> (\<exists>n. stored (nodes ch) n k \<noteq> None)"
  proof
    fix k assume "\<exists>n. stored (nodes ch') n k \<noteq> None"
    then obtain n where n: "stored (nodes ch') n k \<noteq> None" by blast
    show "\<exists>n. stored (nodes ch) n k \<noteq> None"
    proof (cases "n = Y")
      case True
      then obtain v where "stored (nodes ch') Y k = Some v" using n by auto
      from N(8)[OF this] show ?thesis by auto
    next
      case False
      have "stored (nodes ch) n k \<noteq> None"
        using n N(7)[OF False, of k] by (simp split: if_splits)
      then show ?thesis by blast
    qed
  next
    fix k assume "\<exists>n. stored (nodes ch) n k \<noteq> None"
    then obtain n where n: "stored (nodes ch) n k \<noteq> None" by blast
    show "\<exists>n. stored (nodes ch') n k \<noteq> None"
    proof (cases "owner ch' k = Y")
      case True
      from N(9)[OF n True] show ?thesis by blast
    next
      case False
      have "n \<noteq> Y" using n unreg[of k] by auto
      from N(7)[OF this, of k] False n have "stored (nodes ch') n k \<noteq> None" by simp
      then show ?thesis by blast
    qed
  qed
  have "unique_keys (nodes ch')" by (rule unique_keysI[OF N(6) sem'])
  then show ?thesis using N(6) keys by simp
qed

lemma RemoveNode_unique:
  assumes wf: "well_formed (nodes ch)" and uk: "unique_keys (nodes ch)"
    and run: "RemoveNode X ch = Inr (ch', e)"
  shows "well_formed (nodes ch') \<and> unique_keys (nodes ch')
    \<and> {k. \<exists>n. stored (nodes ch') n k \<noteq> None} = {k. \<exists>n. stored (nodes ch) n k \<noteq> None}"
proof (cases "map_of (nodes ch) X")
  case None
  then have "ch' = ch" using run by (intro RemoveNode_old[of ch X])
  then show ?thesis using wf uk by simp
next
  case (Some data)
  note D = RemoveNode_done[OF wf Some run]
  have at: "\<And>n k. stored (nodes ch') n k \<noteq> None \<Longrightarrow>
      (stored (nodes ch) X k \<noteq> None \<and> owner ch' k = n)
      \<or> (stored (nodes ch) X k = None \<and> n \<noteq> X \<and> stored (nodes ch) n k \<noteq> None)"
  proof -
    fix n k assume s: "stored (nodes ch') n k \<noteq> None"
    show "(stored (nodes ch) X k \<noteq> None \<and> owner ch' k = n)
      \<or> (stored (nodes ch) X k = None \<and> n \<noteq> X \<and> stored (nodes ch) n k \<noteq> None)"
    proof (cases "stored (nodes ch) X k \<noteq> None")
      case False
      then show ?thesis using s D(8)[of n k] by (simp split: if_splits)
    next
      case True
      show ?thesis
      proof (cases "owner ch' k = n")
        case True
        with \<open>stored (nodes ch) X k \<noteq> None\<close> show ?thesis by simp
      next
        case False
        then have "n \<noteq> X \<and> stored (nodes ch) n k \<noteq> None"
          using s D(8)[of n k] by (simp split: if_splits)
        then have "n = X" using True unique_keys_sem[OF wf uk, of n k X] by simp
        with \<open>n \<noteq> X \<and> stored (nodes ch) n k \<noteq> None\<close> show ?thesis by simp
      qed
    qed
  qed
  have sem': "\<And>n n' k. stored (nodes ch') n k \<noteq> None \<Longrightarrow> stored (nodes ch') n' k \<noteq> None
      \<Longrightarrow> n = n'"
  proof -
    fix n n' k
    assume a: "stored (nodes ch') n k \<noteq> None" and b: "stored (nodes ch') n' k \<noteq> None"
    show "n = n'"
    proof (cases "stored (nodes ch) X k \<noteq> None")
      case True
      then have "owner ch' k = n" "owner ch' k = n'" using at[OF a] at[OF b] by auto
      then show ?thesis by simp
    next
      case False
      then have "stored (nodes ch) n k \<noteq> None" "stored (nodes ch) n' k \<noteq> None"
        using at[OF a] at[OF b] by auto
      then show ?thesis by (rule unique_keys_sem[OF wf uk])
    qed
  qed
  have keys: "\<And>k. (\<exists>n. stored (nodes ch') n k \<noteq> None) \<longleftrightarrow> (\<exists>n. stored (nodes ch) n k \<noteq> None)"
  proof
    fix k assume "\<exists>n. stored (nodes ch') n k \<noteq> None"
    then obtain n where n: "stored (nodes ch') n k \<noteq> None" by blast
    from at[OF n] show "\<exists>n. stored (nodes ch) n k \<noteq> None" by blast
  next
    fix k assume "\<exists>n. stored (nodes ch) n k \<noteq> None"
    then obtain n where n: "stored (nodes ch) n k \<noteq> None" by blast
    show "\<exists>n. stored (nodes ch') n k \<noteq> None"
    proof (cases "stored (nodes ch) X k \<noteq> None")
      case True
      then have "stored (nodes ch') (owner ch' k) k \<noteq> None"
        using D(8)[of "owner ch' k" k] by simp
      then show ?thesis by blast
    next
      case False
      then have "n \<noteq> X" using n by auto
      then have "stored (nodes ch') n k \<noteq> None" using False n D(8)[of n k] by simp
      then show ?thesis by blast
    qed
  qed
  have "unique_keys (nodes ch')" by (rule unique_keysI[OF D(7) sem'])
  then show ?thesis using D(7) keys by simp
qed





text \<open>
  C9 (amended): \<open>RemoveNode(X)\<close> for a registered \<open>X\<close> panics with a write to a nil
  map exactly when some saved record resolves, on the ring without \<open>X\<close>, to a name that
  is not a registered node other than \<open>X\<close>; otherwise it returns without error. Removing
  the only registered node while its store is non-empty therefore panics instead of
  returning an error. When the store of \<open>X\<close> is non-empty and no node is named \<open>""\<close>,
  a call that does not panic leaves a non-empty ring.
\<close>

theorem RemoveNode_panic_iff:
  assumes "well_formed (nodes ch)" and "map_of (nodes ch) X = Some data"
  shows "(RemoveNode X ch = Inl NilMapWrite \<longleftrightarrow>
            (\<exists>k \<in> fst ` set data.
               owner (remove_from_ring X ch) k \<notin> set (map fst (nodes ch)) - {X}))
    \<and> ((\<exists>ch'. RemoveNode X ch = Inr (ch', None)) \<longleftrightarrow>
            (\<forall>k \<in> fst ` set data.
               owner (remove_from_ring X ch) k \<in> set (map fst (nodes ch)) - {X}))
    \<and> (data \<noteq> [] \<and> set (map fst (nodes ch)) = {X} \<longrightarrow> RemoveNode X ch = Inl NilMapWrite)
    \<and> (data \<noteq> [] \<and> [] \<notin> set (map fst (nodes ch)) \<and> RemoveNode X ch \<noteq> Inl NilMapWrite \<longrightarrow>
          ring (remove_from_ring X ch) \<noteq> [])"
proof -
  let ?ch1 = "remove_from_ring X ch"
  note E = RemoveNode_effect[OF assms]
  have reg: "\<And>n. map_of (AList.delete X (nodes ch)) n = None \<longleftrightarrow>
      n \<notin> set (map fst (nodes ch)) - {X}"
  proof -
    fix n
    have "map_of (nodes ch) n = None \<longleftrightarrow> n \<notin> set (map fst (nodes ch))"
      using registered_iff[of "nodes ch" n] by blast
    then show "map_of (AList.delete X (nodes ch)) n = None \<longleftrightarrow>
      n \<notin> set (map fst (nodes ch)) - {X}"
      by (simp add: delete_conv')
  qed
  have 1: "RemoveNode X ch = Inl NilMapWrite \<longleftrightarrow>
      (\<exists>k \<in> fst ` set data. owner ?ch1 k \<notin> set (map fst (nodes ch)) - {X})"
    using E by (simp only: reg)
  have 2: "(\<exists>ch'. RemoveNode X ch = Inr (ch', None)) \<longleftrightarrow> RemoveNode X ch \<noteq> Inl NilMapWrite"
  proof
    assume "\<exists>ch'. RemoveNode X ch = Inr (ch', None)"
    then show "RemoveNode X ch \<noteq> Inl NilMapWrite" by auto
  next
    assume n: "RemoveNode X ch \<noteq> Inl NilMapWrite"
    with panic_cases[of "RemoveNode X ch"] obtain ch' e where r: "RemoveNode X ch = Inr (ch', e)"
      by auto
    with E have "e = None" by blast
    with r show "\<exists>ch'. RemoveNode X ch = Inr (ch', None)" by blast
  qed
  have 3: "data \<noteq> [] \<and> set (map fst (nodes ch)) = {X} \<longrightarrow> RemoveNode X ch = Inl NilMapWrite"
  proof
    assume a: "data \<noteq> [] \<and> set (map fst (nodes ch)) = {X}"
    then obtain r where "r \<in> set data" by (cases data) auto
    then have "fst r \<in> fst ` set data" by simp
    moreover have "owner ?ch1 (fst r) \<notin> set (map fst (nodes ch)) - {X}" using a by simp
    ultimately show "RemoveNode X ch = Inl NilMapWrite" using 1 by blast
  qed
  have 4: "data \<noteq> [] \<and> [] \<notin> set (map fst (nodes ch)) \<and> RemoveNode X ch \<noteq> Inl NilMapWrite \<longrightarrow>
          ring ?ch1 \<noteq> []"
  proof (intro impI notI)
    assume a: "data \<noteq> [] \<and> [] \<notin> set (map fst (nodes ch)) \<and> RemoveNode X ch \<noteq> Inl NilMapWrite"
      and emp: "ring ?ch1 = []"
    from a obtain r where "r \<in> set data" by (cases data) auto
    then have k: "fst r \<in> fst ` set data" by simp
    have "owner ?ch1 (fst r) = []" by (rule owner_empty[OF emp])
    then have "owner ?ch1 (fst r) \<notin> set (map fst (nodes ch)) - {X}" using a by simp
    with k have "RemoveNode X ch = Inl NilMapWrite" using 1 by blast
    with a show False by simp
  qed
  show ?thesis using 1 2 3 4 by blast
qed


section \<open>The theorems on the demonstration states\<close>




theorem RemoveNode_panic_iff_witness:
  "well_formed (nodes demo_sole) \<and> map_of (nodes demo_sole) ''A'' = Some [(''key_5'', ''v5'')]
   \<and> set (map fst (nodes demo_sole)) = {''A''}
   \<and> RemoveNode ''A'' demo_sole = Inl NilMapWrite"
proof -
  have wf: "well_formed (nodes demo_sole)" by (simp add: well_formed_def demo_sole_def)
  have m: "map_of (nodes demo_sole) ''A'' = Some [(''key_5'', ''v5'')]"
    by (simp add: demo_sole_def)
  have s: "set (map fst (nodes demo_sole)) = {''A''}" by (simp add: demo_sole_def)
  have "RemoveNode ''A'' demo_sole = Inl NilMapWrite"
    using RemoveNode_panic_iff[OF wf m] s by simp
  then show ?thesis using wf m s by simp
qed

theorem RemoveNode_empty_ring_counterexample:
  "AddNode ''A'' (NewConsistentHashing 1) = Inr (demo_ring, MoveReport 0 [])
   \<and> map_of (nodes demo_ring) ''A'' = Some []
   \<and> RemoveNode ''A'' demo_ring = Inr (NewConsistentHashing 1, None)
   \<and> ring (remove_from_ring ''A'' demo_ring) = []"
  using demo_ring_built
  by (simp add: demo_ring_def run_defs hash_values)


section \<open>The ring index along a sequence of calls\<close>

lemma for_each_redistribute_names:
  "for_each (redistribute ch) data ns = Inr ns' \<Longrightarrow>
     map fst ns' = map fst ns \<and> (well_formed ns \<longrightarrow> well_formed ns')"
proof (induction data arbitrary: ns)
  case Nil
  then show ?case by simp
next
  case (Cons e data)
  obtain k v where e: "e = (k, v)" by (cases e)
  have step: "redistribute ch e ns = put_record (owner ch k) k v ns"
    by (simp add: redistribute_def e owner_def)
  from Cons.prems obtain ns1 where
    p: "put_record (owner ch k) k v ns = Inr ns1"
    and r: "for_each (redistribute ch) data ns1 = Inr ns'"
    by (cases "put_record (owner ch k) k v ns") (simp_all add: step)
  from Cons.IH[OF r] names_put[OF p] well_formed_put[OF p] show ?case by simp
qed

lemma distribute_step:
  assumes "distribute users ch = Inr ch'"
  shows "ring ch' = ring ch" and "hashMap ch' = hashMap ch" and "vnodes ch' = vnodes ch"
    and "map fst (nodes ch') = map fst (nodes ch)"
    and "well_formed (nodes ch) \<Longrightarrow> well_formed (nodes ch')"
proof -
  from assms obtain ns where f: "for_each (redistribute ch) users (nodes ch) = Inr ns"
    and c: "ch' = ch\<lparr>nodes := ns\<rparr>"
    by (auto simp: distribute_def split: sum.splits)
  show "ring ch' = ring ch" "hashMap ch' = hashMap ch" "vnodes ch' = vnodes ch"
    by (simp_all add: c)
  show "map fst (nodes ch') = map fst (nodes ch)"
    using for_each_redistribute_names[OF f] by (simp add: c)
  show "well_formed (nodes ch) \<Longrightarrow> well_formed (nodes ch')"
    using for_each_redistribute_names[OF f] by (simp add: c)
qed

lemma keys_of_map: "fst ` set al = {p. map_of al p \<noteq> None}"
  using dom_map_of_conv_image_fst[of al] by (auto simp: dom_def)

lemma AddNode_ring_step:
  assumes wf: "well_formed (nodes ch)" and run: "AddNode Y ch = Inr (ch', rep)"
  shows "well_formed (nodes ch') \<and> vnodes ch' = vnodes ch
    \<and> (sorted (ring ch) \<longrightarrow> sorted (ring ch'))
    \<and> (set (ring ch) = fst ` set (hashMap ch) \<longrightarrow> set (ring ch') = fst ` set (hashMap ch'))"
proof (cases "map_of (nodes ch) Y")
  case (Some d)
  then have c: "ch' = ch" using run by (intro AddNode_old[of ch Y]) auto
  show ?thesis using wf by (simp add: c)
next
  case None
  note N = AddNode_new[OF wf None run]
  have "fst ` set (hashMap ch') =
      set (vnode_hashes Y (vnodes ch)) \<union> fst ` set (hashMap ch)"
    unfolding keys_of_map N(2) by (auto simp: add_to_ring_fields)
  then have "set (ring ch) = fst ` set (hashMap ch) \<longrightarrow> set (ring ch') = fst ` set (hashMap ch')"
    by (auto simp: N(1))
  moreover have "sorted (ring ch')" by (simp add: N(1))
  ultimately show ?thesis using N(6) N(3) by simp
qed

lemma RemoveNode_ring_step:
  assumes wf: "well_formed (nodes ch)" and run: "RemoveNode X ch = Inr (ch', e)"
  shows "well_formed (nodes ch') \<and> vnodes ch' = vnodes ch
    \<and> (sorted (ring ch) \<longrightarrow> sorted (ring ch'))
    \<and> (set (ring ch) = fst ` set (hashMap ch) \<longrightarrow> set (ring ch') = fst ` set (hashMap ch'))"
proof (cases "map_of (nodes ch) X")
  case None
  then have c: "ch' = ch" using run by (intro RemoveNode_old[of ch X])
  show ?thesis using wf by (simp add: c)
next
  case (Some data)
  note D = RemoveNode_done[OF wf Some run]
  have "fst ` set (hashMap ch') =
      fst ` set (hashMap ch) - set (vnode_hashes X (vnodes ch))"
    unfolding keys_of_map D(3) by (auto simp: remove_from_ring_fields)
  then have "set (ring ch) = fst ` set (hashMap ch) \<longrightarrow> set (ring ch') = fst ` set (hashMap ch')"
    by (auto simp: D(2))
  moreover have "sorted (ring ch) \<longrightarrow> sorted (ring ch')" by (simp add: D(2) sorted_wrt_filter)
  ultimately show ?thesis using D(7) D(4) by simp
qed


lemma distinct_concat_map:
  assumes "distinct (concat (map f xs))"
  shows "(\<forall>x \<in> set xs. distinct (f x))
    \<and> (distinct xs \<longrightarrow> (\<forall>x \<in> set xs. \<forall>y \<in> set xs. x \<noteq> y \<longrightarrow> set (f x) \<inter> set (f y) = {}))"
  using assms
proof (induction xs)
  case Nil
  show ?case by simp
next
  case (Cons a xs)
  from Cons.prems have da: "distinct (f a)" and dr: "distinct (concat (map f xs))"
    and dj: "\<And>y. y \<in> set xs \<Longrightarrow> set (f a) \<inter> set (f y) = {}"
    by auto
  from Cons.IH[OF dr] have i1: "\<forall>x \<in> set xs. distinct (f x)"
    and i2: "distinct xs \<longrightarrow>
      (\<forall>x \<in> set xs. \<forall>y \<in> set xs. x \<noteq> y \<longrightarrow> set (f x) \<inter> set (f y) = {})"
    by simp_all
  have "distinct (a # xs) \<longrightarrow>
      (\<forall>x \<in> set (a # xs). \<forall>y \<in> set (a # xs). x \<noteq> y \<longrightarrow> set (f x) \<inter> set (f y) = {})"
  proof (intro impI ballI)
    fix x y
    assume d: "distinct (a # xs)" and x: "x \<in> set (a # xs)" and y: "y \<in> set (a # xs)"
      and ne: "x \<noteq> y"
    show "set (f x) \<inter> set (f y) = {}"
    proof (cases "x = a"; cases "y = a")
      assume "x = a" "y = a" with ne show ?thesis by simp
    next
      assume "x = a" "y \<noteq> a" with y dj[of y] show ?thesis by simp
    next
      assume "x \<noteq> a" "y = a" with x dj[of x] show ?thesis by (simp add: Int_commute)
    next
      assume "x \<noteq> a" "y \<noteq> a"
      with x y have "x \<in> set xs" "y \<in> set xs" by simp_all
      with i2 d ne show ?thesis by simp
    qed
  qed
  with da i1 show ?case by simp
qed

lemma positions_distinct_sem:
  assumes "positions_distinct N vn"
  shows "n \<in> set N \<Longrightarrow> distinct (vnode_hashes n vn)"
    and "n \<in> set N \<Longrightarrow> m \<in> set N \<Longrightarrow> n \<noteq> m \<Longrightarrow>
      set (vnode_hashes n vn) \<inter> set (vnode_hashes m vn) = {}"
proof -
  note D = distinct_concat_map[OF assms[unfolded positions_distinct_def]]
  show "n \<in> set N \<Longrightarrow> distinct (vnode_hashes n vn)" using D by simp
  show "n \<in> set N \<Longrightarrow> m \<in> set N \<Longrightarrow> n \<noteq> m \<Longrightarrow>
      set (vnode_hashes n vn) \<inter> set (vnode_hashes m vn) = {}"
    using D by simp
qed

lemma AddNode_distinct_step:
  assumes wf: "well_formed (nodes ch)" and run: "AddNode Y ch = Inr (ch', rep)"
    and pd: "positions_distinct N (vnodes ch)" and yn: "Y \<in> set N"
    and sub: "set (map fst (nodes ch)) \<subseteq> set N"
    and di: "distinct (ring ch)"
    and co: "\<forall>p \<in> set (ring ch). \<exists>n \<in> set (map fst (nodes ch)). p \<in> set (vnode_hashes n (vnodes ch))"
  shows "set (map fst (nodes ch')) \<subseteq> set N \<and> distinct (ring ch')
    \<and> (\<forall>p \<in> set (ring ch'). \<exists>n \<in> set (map fst (nodes ch')). p \<in> set (vnode_hashes n (vnodes ch')))"
proof (cases "map_of (nodes ch) Y")
  case (Some d)
  then have c: "ch' = ch" using run by (intro AddNode_old[of ch Y]) auto
  show ?thesis using sub di co by (simp add: c)
next
  case None
  note N = AddNode_new[OF wf None run]
  let ?H = "vnode_hashes Y (vnodes ch)"
  have ynot: "Y \<notin> set (map fst (nodes ch))"
    using None registered_iff[of "nodes ch" Y] by simp
  have dH: "distinct ?H" by (rule positions_distinct_sem(1)[OF pd yn])
  have dj: "set (ring ch) \<inter> set ?H = {}"
  proof (rule ccontr)
    assume "set (ring ch) \<inter> set ?H \<noteq> {}"
    then obtain p where p: "p \<in> set (ring ch)" "p \<in> set ?H" by blast
    from co p(1) obtain n where n: "n \<in> set (map fst (nodes ch))"
      "p \<in> set (vnode_hashes n (vnodes ch))" by blast
    have "n \<noteq> Y" using n(1) ynot by auto
    moreover have "n \<in> set N" using n(1) sub by blast
    ultimately have "set (vnode_hashes n (vnodes ch)) \<inter> set ?H = {}"
      using positions_distinct_sem(2)[OF pd _ yn] by simp
    with n(2) p(2) show False by blast
  qed
  have d': "distinct (ring ch')" using di dH dj by (simp add: N(1))
  have s': "set (map fst (nodes ch')) \<subseteq> set N" unfolding N(5) using sub yn by simp
  have c': "\<forall>p \<in> set (ring ch'). \<exists>n \<in> set (map fst (nodes ch')).
      p \<in> set (vnode_hashes n (vnodes ch'))"
  proof
    fix p assume "p \<in> set (ring ch')"
    then have "p \<in> set (ring ch) \<or> p \<in> set ?H" by (simp add: N(1))
    then show "\<exists>n \<in> set (map fst (nodes ch')). p \<in> set (vnode_hashes n (vnodes ch'))"
    proof
      assume "p \<in> set (ring ch)"
      with co obtain n where "n \<in> set (map fst (nodes ch))"
        "p \<in> set (vnode_hashes n (vnodes ch))" by blast
      then show ?thesis unfolding N(5) N(3) by blast
    next
      assume "p \<in> set ?H"
      then show ?thesis unfolding N(5) N(3) by blast
    qed
  qed
  show ?thesis using s' d' c' by simp
qed

lemma RemoveNode_distinct_step:
  assumes wf: "well_formed (nodes ch)" and run: "RemoveNode X ch = Inr (ch', e)"
    and sub: "set (map fst (nodes ch)) \<subseteq> set N"
    and di: "distinct (ring ch)"
    and co: "\<forall>p \<in> set (ring ch). \<exists>n \<in> set (map fst (nodes ch)). p \<in> set (vnode_hashes n (vnodes ch))"
  shows "set (map fst (nodes ch')) \<subseteq> set N \<and> distinct (ring ch')
    \<and> (\<forall>p \<in> set (ring ch'). \<exists>n \<in> set (map fst (nodes ch')). p \<in> set (vnode_hashes n (vnodes ch')))"
proof (cases "map_of (nodes ch) X")
  case None
  then have c: "ch' = ch" using run by (intro RemoveNode_old[of ch X])
  show ?thesis using sub di co by (simp add: c)
next
  case (Some data)
  note D = RemoveNode_done[OF wf Some run]
  let ?H = "vnode_hashes X (vnodes ch)"
  have names': "set (map fst (nodes ch')) = set (map fst (nodes ch)) - {X}"
    unfolding D(6) by (simp add: delete_keys)
  have d': "distinct (ring ch')" using di by (simp add: D(2))
  have s': "set (map fst (nodes ch')) \<subseteq> set N" using sub unfolding names' by blast
  have c': "\<forall>p \<in> set (ring ch'). \<exists>n \<in> set (map fst (nodes ch')).
      p \<in> set (vnode_hashes n (vnodes ch'))"
  proof
    fix p assume "p \<in> set (ring ch')"
    then have p: "p \<in> set (ring ch)" "p \<notin> set ?H" by (simp_all add: D(2))
    from co p(1) obtain n where n: "n \<in> set (map fst (nodes ch))"
      "p \<in> set (vnode_hashes n (vnodes ch))" by blast
    have "n \<noteq> X" using n(2) p(2) by auto
    then have "n \<in> set (map fst (nodes ch'))" using n(1) unfolding names' by simp
    then show "\<exists>n \<in> set (map fst (nodes ch')). p \<in> set (vnode_hashes n (vnodes ch'))"
      using n(2) unfolding D(4) by blast
  qed
  show ?thesis using s' d' c' by simp
qed

lemma calls_ring_invariant:
  assumes "for_each apply_call calls ch = Inr ch'"
    and "well_formed (nodes ch)" and "sorted (ring ch)"
    and "set (ring ch) = fst ` set (hashMap ch)"
  shows "well_formed (nodes ch') \<and> vnodes ch' = vnodes ch \<and> sorted (ring ch')
    \<and> set (ring ch') = fst ` set (hashMap ch')"
  using assms
proof (induction calls arbitrary: ch)
  case Nil
  then show ?case by simp
next
  case (Cons c calls)
  from Cons.prems(1) obtain ch1 where s: "apply_call c ch = Inr ch1"
    and r: "for_each apply_call calls ch1 = Inr ch'"
    by (cases "apply_call c ch") simp_all
  have "well_formed (nodes ch1) \<and> vnodes ch1 = vnodes ch \<and> sorted (ring ch1)
    \<and> set (ring ch1) = fst ` set (hashMap ch1)"
  proof (cases c)
    case (Add Y)
    from s obtain rep where "AddNode Y ch = Inr (ch1, rep)"
      by (cases "AddNode Y ch") (auto simp: Add)
    from AddNode_ring_step[OF Cons.prems(2) this] Cons.prems(3,4) show ?thesis by simp
  next
    case (Remove X)
    from s obtain e where "RemoveNode X ch = Inr (ch1, e)"
      by (cases "RemoveNode X ch") (auto simp: Remove)
    from RemoveNode_ring_step[OF Cons.prems(2) this] Cons.prems(3,4) show ?thesis by simp
  next
    case (Distribute users)
    then have "distribute users ch = Inr ch1" using s by simp
    from distribute_step[OF this] Cons.prems(2,3,4) show ?thesis by simp
  qed
  with Cons.IH[OF r] show ?case by simp
qed

lemma calls_distinct_invariant:
  assumes "for_each apply_call calls ch = Inr ch'"
    and "well_formed (nodes ch)"
    and "positions_distinct N (vnodes ch)" and "set (call_names calls) \<subseteq> set N"
    and "set (map fst (nodes ch)) \<subseteq> set N"
    and "distinct (ring ch)"
    and "\<forall>p \<in> set (ring ch). \<exists>n \<in> set (map fst (nodes ch)). p \<in> set (vnode_hashes n (vnodes ch))"
  shows "distinct (ring ch')"
  using assms
proof (induction calls arbitrary: ch)
  case Nil
  then show ?case by simp
next
  case (Cons c calls)
  from Cons.prems(1) obtain ch1 where s: "apply_call c ch = Inr ch1"
    and r: "for_each apply_call calls ch1 = Inr ch'"
    by (cases "apply_call c ch") simp_all
  have cn: "set (call_names calls) \<subseteq> set N"
    using Cons.prems(4) by (cases c) auto
  have step: "well_formed (nodes ch1) \<and> vnodes ch1 = vnodes ch
    \<and> set (map fst (nodes ch1)) \<subseteq> set N \<and> distinct (ring ch1)
    \<and> (\<forall>p \<in> set (ring ch1). \<exists>n \<in> set (map fst (nodes ch1)). p \<in> set (vnode_hashes n (vnodes ch1)))"
  proof (cases c)
    case (Add Y)
    from s obtain rep where a: "AddNode Y ch = Inr (ch1, rep)"
      by (cases "AddNode Y ch") (auto simp: Add)
    have yn: "Y \<in> set N" using Cons.prems(4) by (simp add: Add)
    from AddNode_ring_step[OF Cons.prems(2) a]
      AddNode_distinct_step[OF Cons.prems(2) a Cons.prems(3) yn Cons.prems(5,6,7)]
    show ?thesis by simp
  next
    case (Remove X)
    from s obtain e where a: "RemoveNode X ch = Inr (ch1, e)"
      by (cases "RemoveNode X ch") (auto simp: Remove)
    from RemoveNode_ring_step[OF Cons.prems(2) a]
      RemoveNode_distinct_step[OF Cons.prems(2) a Cons.prems(5,6,7)]
    show ?thesis by simp
  next
    case (Distribute users)
    then have "distribute users ch = Inr ch1" using s by simp
    from distribute_step[OF this] Cons.prems(2,5,6,7) show ?thesis by simp
  qed
  from step have w1: "well_formed (nodes ch1)" and v1: "vnodes ch1 = vnodes ch"
    and s1: "set (map fst (nodes ch1)) \<subseteq> set N" and d1: "distinct (ring ch1)"
    and c1: "\<forall>p \<in> set (ring ch1). \<exists>n \<in> set (map fst (nodes ch1)).
      p \<in> set (vnode_hashes n (vnodes ch1))"
    by blast+
  have pd1: "positions_distinct N (vnodes ch1)" using Cons.prems(3) by (simp only: v1)
  show ?case by (rule Cons.IH[OF r w1 pd1 cn s1 d1 c1])
qed

text \<open>
  C5 (amended): in every state reached from \<open>NewConsistentHashing\<close> by a sequence of
  \<open>AddNode\<close> and \<open>RemoveNode\<close> calls and record distributions that returns, the ring is
  sorted and its set of positions is exactly the key set of \<open>hashMap\<close>. The ring holds
  no position twice provided the virtual-node positions of the names passed to the calls
  are pairwise distinct.
\<close>

theorem ring_index_invariant:
  assumes "run vn calls = Inr ch"
  shows "sorted (ring ch) \<and> set (ring ch) = fst ` set (hashMap ch)
    \<and> (positions_distinct (call_names calls) vn \<longrightarrow> distinct (ring ch))"
proof -
  let ?c0 = "NewConsistentHashing vn"
  have r: "for_each apply_call calls ?c0 = Inr ch" using assms by (simp add: run_def)
  have wf0: "well_formed (nodes ?c0)"
    by (simp add: NewConsistentHashing_def well_formed_def)
  have 1: "sorted (ring ch) \<and> set (ring ch) = fst ` set (hashMap ch)"
    using calls_ring_invariant[OF r wf0] by (simp add: NewConsistentHashing_def)
  have 2: "positions_distinct (call_names calls) vn \<Longrightarrow> distinct (ring ch)"
  proof -
    assume pd: "positions_distinct (call_names calls) vn"
    show "distinct (ring ch)"
      by (rule calls_distinct_invariant[OF r wf0, of "call_names calls"])
        (use pd in \<open>simp_all add: NewConsistentHashing_def\<close>)
  qed
  show ?thesis using 1 2 by blast
qed


lemma demo_positions_distinct:
  "positions_distinct
     (call_names [Add ''A'', Add ''B'',
        Distribute [(''key_5'', ''v5''), (''key_1'', ''v1''), (''key_42'', ''v42'')]]) 2"
  by (simp add: positions_distinct_def vnode_hashes_def upt_2 vnodeKey_0 vnodeKey_1 hash_values)

theorem ring_index_invariant_witness:
  "run 2 [Add ''A'', Add ''B'',
        Distribute [(''key_5'', ''v5''), (''key_1'', ''v1''), (''key_42'', ''v42'')]]
     = Inr demo_cluster
   \<and> positions_distinct
     (call_names [Add ''A'', Add ''B'',
        Distribute [(''key_5'', ''v5''), (''key_1'', ''v1''), (''key_42'', ''v42'')]]) 2
   \<and> sorted (ring demo_cluster)
   \<and> set (ring demo_cluster) = fst ` set (hashMap demo_cluster)
   \<and> distinct (ring demo_cluster)"
  using ring_index_invariant[OF demo_cluster_built] demo_positions_distinct demo_cluster_built
  by blast

theorem ring_duplicates_counterexample:
  "run 1 [Add ''plumless'', Add ''buckeroo''] = Inr collide_ring
   \<and> \<not> distinct (ring collide_ring)"
  by (simp add: collide_ring_def run_defs hash_values)


section \<open>Placement along a sequence of calls\<close>

lemma distribute_placed:
  assumes wf: "well_formed (nodes ch)" and pl: "placed ch"
    and run: "distribute users ch = Inr ch'"
  shows "placed ch'"
proof -
  from run obtain ns where f: "for_each (redistribute ch) users (nodes ch) = Inr ns"
    and c: "ch' = ch\<lparr>nodes := ns\<rparr>"
    by (auto simp: distribute_def split: sum.splits)
  have P: "\<And>n k. stored (nodes ch) n k \<noteq> None \<Longrightarrow> owner ch k = n"
    using pl placed_iff[OF well_formed_names[OF wf]] by blast
  have gen: "\<And>ns0. for_each (redistribute ch) users ns0 = Inr ns \<Longrightarrow>
      (\<forall>n k. stored ns0 n k \<noteq> None \<longrightarrow> owner ch k = n) \<Longrightarrow>
      (\<forall>n k. stored ns n k \<noteq> None \<longrightarrow> owner ch k = n)"
  proof (induction users)
    case Nil
    then show ?case by simp
  next
    case (Cons e users)
    obtain k v where e: "e = (k, v)" by (cases e)
    have step: "redistribute ch e ns0 = put_record (owner ch k) k v ns0"
      by (simp add: redistribute_def e owner_def)
    from Cons.prems(1) obtain ns1 where
      p: "put_record (owner ch k) k v ns0 = Inr ns1"
      and r: "for_each (redistribute ch) users ns1 = Inr ns"
      by (cases "put_record (owner ch k) k v ns0") (simp_all add: step)
    have "\<forall>n k'. stored ns1 n k' \<noteq> None \<longrightarrow> owner ch k' = n"
      using Cons.prems(2) by (auto simp: stored_put[OF p])
    from Cons.IH[OF r this] show ?case .
  qed
  have "\<forall>n k. stored ns n k \<noteq> None \<longrightarrow> owner ch k = n"
    using gen[OF f] P by blast
  moreover have "well_formed ns"
    using for_each_redistribute_names[OF f] wf by simp
  ultimately show ?thesis
    using placed_iff[of ch', OF well_formed_names] by (simp add: c)
qed

lemma owner_map_AddNode:
  assumes wf: "well_formed (nodes ch)" and run: "AddNode Y ch = Inr (ch', rep)"
    and om: "\<forall>p n. map_of (hashMap ch) p = Some n \<longrightarrow>
        n \<in> set (map fst (nodes ch)) \<and> p \<in> set (vnode_hashes n (vnodes ch))"
  shows "\<forall>p n. map_of (hashMap ch') p = Some n \<longrightarrow>
        n \<in> set (map fst (nodes ch')) \<and> p \<in> set (vnode_hashes n (vnodes ch'))"
proof (cases "map_of (nodes ch) Y")
  case (Some d)
  then have c: "ch' = ch" using run by (intro AddNode_old[of ch Y]) auto
  show ?thesis using om by (simp add: c)
next
  case None
  note N = AddNode_new[OF wf None run]
  show ?thesis
  proof (intro allI impI)
    fix p n assume a: "map_of (hashMap ch') p = Some n"
    show "n \<in> set (map fst (nodes ch')) \<and> p \<in> set (vnode_hashes n (vnodes ch'))"
    proof (cases "p \<in> set (vnode_hashes Y (vnodes ch))")
      case True
      then have "n = Y" using a by (simp add: N(2) add_to_ring_fields)
      then show ?thesis using True unfolding N(5) N(3) by simp
    next
      case False
      then have "map_of (hashMap ch) p = Some n" using a by (simp add: N(2) add_to_ring_fields)
      with om have "n \<in> set (map fst (nodes ch)) \<and> p \<in> set (vnode_hashes n (vnodes ch))"
        by blast
      then show ?thesis unfolding N(5) N(3) by simp
    qed
  qed
qed

lemma owner_map_RemoveNode:
  assumes wf: "well_formed (nodes ch)" and run: "RemoveNode X ch = Inr (ch', e)"
    and om: "\<forall>p n. map_of (hashMap ch) p = Some n \<longrightarrow>
        n \<in> set (map fst (nodes ch)) \<and> p \<in> set (vnode_hashes n (vnodes ch))"
  shows "\<forall>p n. map_of (hashMap ch') p = Some n \<longrightarrow>
        n \<in> set (map fst (nodes ch')) \<and> p \<in> set (vnode_hashes n (vnodes ch'))"
proof (cases "map_of (nodes ch) X")
  case None
  then have c: "ch' = ch" using run by (intro RemoveNode_old[of ch X])
  show ?thesis using om by (simp add: c)
next
  case (Some data)
  note D = RemoveNode_done[OF wf Some run]
  have names': "set (map fst (nodes ch')) = set (map fst (nodes ch)) - {X}"
    unfolding D(6) by (simp add: delete_keys)
  show ?thesis
  proof (intro allI impI)
    fix p n assume a: "map_of (hashMap ch') p = Some n"
    then have np: "p \<notin> set (vnode_hashes X (vnodes ch))"
      and b: "map_of (hashMap ch) p = Some n"
      by (simp_all add: D(3) remove_from_ring_fields split: if_splits)
    from om b have m: "n \<in> set (map fst (nodes ch))" "p \<in> set (vnode_hashes n (vnodes ch))"
      by blast+
    have "n \<noteq> X" using m(2) np by auto
    then show "n \<in> set (map fst (nodes ch')) \<and> p \<in> set (vnode_hashes n (vnodes ch'))"
      using m unfolding names' D(4) by simp
  qed
qed

lemma owns_positions_from_invariant:
  assumes pd: "positions_distinct N (vnodes ch)"
    and sub: "set (map fst (nodes ch)) \<subseteq> set N"
    and reg: "X \<in> set (map fst (nodes ch))"
    and ks: "set (ring ch) = fst ` set (hashMap ch)"
    and om: "\<forall>p n. map_of (hashMap ch) p = Some n \<longrightarrow>
        n \<in> set (map fst (nodes ch)) \<and> p \<in> set (vnode_hashes n (vnodes ch))"
  shows "owns_positions X ch"
  unfolding owns_positions_def
proof
  fix p assume "p \<in> set (ring ch) \<inter> set (vnode_hashes X (vnodes ch))"
  then have pr: "p \<in> set (ring ch)" and px: "p \<in> set (vnode_hashes X (vnodes ch))" by simp_all
  from pr ks have "p \<in> fst ` set (hashMap ch)" by simp
  then have "map_of (hashMap ch) p \<noteq> None" unfolding keys_of_map by simp
  then obtain n where n: "map_of (hashMap ch) p = Some n" by blast
  with om have m: "n \<in> set (map fst (nodes ch))" "p \<in> set (vnode_hashes n (vnodes ch))"
    by blast+
  have "n = X"
  proof (rule ccontr)
    assume ne: "n \<noteq> X"
    have "n \<in> set N" "X \<in> set N" using m(1) reg sub by blast+
    from positions_distinct_sem(2)[OF pd this ne] m(2) px show False by blast
  qed
  then show "index_str (hashMap ch) p = X" using n by (simp add: index_str_def)
qed

lemma calls_placed:
  assumes "for_each apply_call calls ch = Inr ch'"
    and "well_formed (nodes ch)" and "sorted (ring ch)" and "placed ch"
    and "set (ring ch) = fst ` set (hashMap ch)"
    and "\<forall>p n. map_of (hashMap ch) p = Some n \<longrightarrow>
        n \<in> set (map fst (nodes ch)) \<and> p \<in> set (vnode_hashes n (vnodes ch))"
    and "positions_distinct N (vnodes ch)" and "set (call_names calls) \<subseteq> set N"
    and "set (map fst (nodes ch)) \<subseteq> set N"
  shows "placed ch'"
  using assms
proof (induction calls arbitrary: ch)
  case Nil
  then show ?case by simp
next
  case (Cons c calls)
  from Cons.prems(1) obtain ch1 where s: "apply_call c ch = Inr ch1"
    and r: "for_each apply_call calls ch1 = Inr ch'"
    by (cases "apply_call c ch") simp_all
  have cn: "set (call_names calls) \<subseteq> set N"
    using Cons.prems(8) by (cases c) auto
  have step: "(well_formed (nodes ch1) \<and> sorted (ring ch1) \<and> placed ch1)
    \<and> set (ring ch1) = fst ` set (hashMap ch1)
    \<and> (\<forall>p n. map_of (hashMap ch1) p = Some n \<longrightarrow>
        n \<in> set (map fst (nodes ch1)) \<and> p \<in> set (vnode_hashes n (vnodes ch1)))
    \<and> vnodes ch1 = vnodes ch
    \<and> set (map fst (nodes ch1)) \<subseteq> set N"
  proof (cases c)
    case (Add Y)
    from s obtain rep where a: "AddNode Y ch = Inr (ch1, rep)"
      by (cases "AddNode Y ch") (auto simp: Add)
    have yn: "Y \<in> set N" using Cons.prems(8) by (simp add: Add)
    have "set (map fst (nodes ch1)) \<subseteq> set N"
    proof (cases "map_of (nodes ch) Y")
      case None
      show ?thesis
        unfolding AddNode_new(5)[OF Cons.prems(2) None a] using Cons.prems(9) yn by simp
    next
      case (Some d)
      then have "ch1 = ch" using a by (intro AddNode_old[of ch Y]) auto
      then show ?thesis using Cons.prems(9) by simp
    qed
    with AddNode_placed[OF Cons.prems(2,3,4) a] AddNode_ring_step[OF Cons.prems(2) a]
      owner_map_AddNode[OF Cons.prems(2) a Cons.prems(6)] Cons.prems(5)
    show ?thesis by simp
  next
    case (Remove X)
    from s obtain e where a: "RemoveNode X ch = Inr (ch1, e)"
      by (cases "RemoveNode X ch") (auto simp: Remove)
    have pl1: "well_formed (nodes ch1) \<and> sorted (ring ch1) \<and> placed ch1"
    proof (cases "map_of (nodes ch) X")
      case None
      then have "ch1 = ch" using a by (intro RemoveNode_old[of ch X])
      then show ?thesis using Cons.prems(2,3,4) by simp
    next
      case (Some data)
      then have "X \<in> set (map fst (nodes ch))" using registered_iff[of "nodes ch" X] by simp
      from owns_positions_from_invariant[OF Cons.prems(7,9) this Cons.prems(5,6)]
      have "owns_positions X ch" .
      from RemoveNode_placed[OF Cons.prems(2,3,4) this a] show ?thesis .
    qed
    have "set (map fst (nodes ch1)) \<subseteq> set N"
    proof (cases "map_of (nodes ch) X")
      case None
      then have "ch1 = ch" using a by (intro RemoveNode_old[of ch X])
      then show ?thesis using Cons.prems(9) by simp
    next
      case (Some data)
      have "set (map fst (nodes ch1)) = set (map fst (nodes ch)) - {X}"
        unfolding RemoveNode_done(6)[OF Cons.prems(2) Some a] by (simp add: delete_keys)
      then show ?thesis using Cons.prems(9) by blast
    qed
    with pl1 RemoveNode_ring_step[OF Cons.prems(2) a]
      owner_map_RemoveNode[OF Cons.prems(2) a Cons.prems(6)] Cons.prems(5)
    show ?thesis by simp
  next
    case (Distribute users)
    then have d: "distribute users ch = Inr ch1" using s by simp
    from distribute_step[OF d] distribute_placed[OF Cons.prems(2,4) d] Cons.prems(2,3,5,6,9)
    show ?thesis by simp
  qed
  from step have pd1: "positions_distinct N (vnodes ch1)" using Cons.prems(7) by simp
  from step have a1: "well_formed (nodes ch1)" and a2: "sorted (ring ch1)" and a3: "placed ch1"
    and a4: "set (ring ch1) = fst ` set (hashMap ch1)"
    and a5: "\<forall>p n. map_of (hashMap ch1) p = Some n \<longrightarrow>
        n \<in> set (map fst (nodes ch1)) \<and> p \<in> set (vnode_hashes n (vnodes ch1))"
    and a6: "set (map fst (nodes ch1)) \<subseteq> set N"
    by blast+
  show ?case by (rule Cons.IH[OF r a1 a2 a3 a4 a5 pd1 cn a6])
qed

lemma run_placed:
  assumes "run vn calls = Inr ch" and "positions_distinct (call_names calls) vn"
  shows "placed ch"
proof -
  let ?c0 = "NewConsistentHashing vn"
  have r: "for_each apply_call calls ?c0 = Inr ch" using assms(1) by (simp add: run_def)
  show ?thesis
    by (rule calls_placed[OF r, of "call_names calls"])
      (use assms(2) in \<open>simp_all add: NewConsistentHashing_def well_formed_def placed_def\<close>)
qed


text \<open>
  C1 (amended): \<open>AddNode\<close> always returns. Started in a state whose ring is sorted and in
  which every stored record sits on the node \<open>GetNode\<close> names for its key, a call of
  \<open>AddNode\<close> that returns leaves such a state again. So does a call of \<open>RemoveNode(X)\<close>
  that returns, provided every ring position that is the hash of one of \<open>X\<close>'s
  virtual-node keys is owned by \<open>X\<close> in \<open>hashMap\<close>, that is, no other node's virtual
  node shares a position with one of \<open>X\<close>'s. Hence, after any sequence of \<open>AddNode\<close> and
  \<open>RemoveNode\<close> calls and record distributions that starts from \<open>NewConsistentHashing\<close>
  and returns, every stored record sits on the node \<open>GetNode\<close> names for its key, provided
  the virtual-node positions of the names passed to the calls are pairwise distinct.
\<close>

theorem placement_restored:
  "(well_formed (nodes ch) \<and> sorted (ring ch) \<and> placed ch \<longrightarrow>
      (\<exists>ch' rep. AddNode Y ch = Inr (ch', rep))
      \<and> (\<forall>ch' rep. AddNode Y ch = Inr (ch', rep) \<longrightarrow>
            well_formed (nodes ch') \<and> sorted (ring ch') \<and> placed ch')
      \<and> (\<forall>ch' e. RemoveNode X ch = Inr (ch', e) \<and> owns_positions X ch \<longrightarrow>
            well_formed (nodes ch') \<and> sorted (ring ch') \<and> placed ch'))
   \<and> (run vn calls = Inr ch0 \<and> positions_distinct (call_names calls) vn \<longrightarrow> placed ch0)"
proof (intro conjI impI allI)
  assume a: "well_formed (nodes ch) \<and> sorted (ring ch) \<and> placed ch"
  then show "\<exists>ch' rep. AddNode Y ch = Inr (ch', rep)" using AddNode_returns[of ch Y] by simp
next
  fix ch' rep
  assume a: "well_formed (nodes ch) \<and> sorted (ring ch) \<and> placed ch"
    and r: "AddNode Y ch = Inr (ch', rep)"
  from a have wf: "well_formed (nodes ch)" and so: "sorted (ring ch)" and pl: "placed ch"
    by simp_all
  note P = AddNode_placed[OF wf so pl r]
  from P show "well_formed (nodes ch')" by simp
  from P show "sorted (ring ch')" by simp
  from P show "placed ch'" by simp
next
  fix ch' e
  assume a: "well_formed (nodes ch) \<and> sorted (ring ch) \<and> placed ch"
    and r: "RemoveNode X ch = Inr (ch', e) \<and> owns_positions X ch"
  from a have wf: "well_formed (nodes ch)" and so: "sorted (ring ch)" and pl: "placed ch"
    by simp_all
  from r have own: "owns_positions X ch" and run: "RemoveNode X ch = Inr (ch', e)" by simp_all
  note P = RemoveNode_placed[OF wf so pl own run]
  from P show "well_formed (nodes ch')" by simp
  from P show "sorted (ring ch')" by simp
  from P show "placed ch'" by simp
next
  assume "run vn calls = Inr ch0 \<and> positions_distinct (call_names calls) vn"
  then show "placed ch0" using run_placed[of vn calls ch0] by simp
qed

lemma demo_cluster_owns_A: "owns_positions ''A'' demo_cluster"
  by (simp add: owns_positions_def demo_cluster_def vnode_hashes_def upt_2 vnodeKey_0 vnodeKey_1
      hash_values index_str_def)

lemma demo_removed_run:
  "run 2 [Add ''A'', Add ''B'',
        Distribute [(''key_5'', ''v5''), (''key_1'', ''v1''), (''key_42'', ''v42'')],
        Remove ''A'']
     = Inr demo_removed"
proof -
  have "for_each apply_call
      ([Add ''A'', Add ''B'',
        Distribute [(''key_5'', ''v5''), (''key_1'', ''v1''), (''key_42'', ''v42'')]]
       @ [Remove ''A'']) (NewConsistentHashing 2) =
    for_each apply_call [Remove ''A''] demo_cluster"
    unfolding for_each_append demo_cluster_built[unfolded run_def] by simp
  also have "\<dots> = Inr demo_removed" by (simp add: demo_removed_built)
  finally show ?thesis by (simp add: run_def)
qed

lemma demo_removed_positions_distinct:
  "positions_distinct
     (call_names [Add ''A'', Add ''B'',
        Distribute [(''key_5'', ''v5''), (''key_1'', ''v1''), (''key_42'', ''v42'')],
        Remove ''A'']) 2"
  by (simp add: positions_distinct_def vnode_hashes_def upt_2 vnodeKey_0 vnodeKey_1 hash_values)

theorem placement_restored_witness:
  "well_formed (nodes demo_cluster) \<and> sorted (ring demo_cluster) \<and> placed demo_cluster
   \<and> AddNode ''C'' demo_cluster = Inr (demo_added, MoveReport 1 [(''A'', 1)])
   \<and> placed demo_added
   \<and> owns_positions ''A'' demo_cluster
   \<and> RemoveNode ''A'' demo_cluster = Inr (demo_removed, None)
   \<and> placed demo_removed
   \<and> run 2 [Add ''A'', Add ''B'',
        Distribute [(''key_5'', ''v5''), (''key_1'', ''v1''), (''key_42'', ''v42'')],
        Remove ''A'']
     = Inr demo_removed
   \<and> positions_distinct
     (call_names [Add ''A'', Add ''B'',
        Distribute [(''key_5'', ''v5''), (''key_1'', ''v1''), (''key_42'', ''v42'')],
        Remove ''A'']) 2"
proof -
  have h: "well_formed (nodes demo_cluster) \<and> sorted (ring demo_cluster) \<and> placed demo_cluster"
    using demo_cluster_ok demo_cluster_placed by simp
  note T = placement_restored[of demo_cluster "''C''" "''A''" 2
      "[Add ''A'', Add ''B'',
        Distribute [(''key_5'', ''v5''), (''key_1'', ''v1''), (''key_42'', ''v42'')],
        Remove ''A'']" demo_removed]
  note S = T[THEN conjunct1, rule_format, OF h]
  have a: "placed demo_added"
    using S[THEN conjunct2, THEN conjunct1, rule_format, OF demo_added_built] by simp
  have r: "placed demo_removed"
    using S[THEN conjunct2, THEN conjunct2, rule_format, of demo_removed None]
      demo_removed_built demo_cluster_owns_A by simp
  have r': "placed demo_removed"
    using T[THEN conjunct2, rule_format] demo_removed_run demo_removed_positions_distinct
    by simp
  show ?thesis
    using a r h demo_added_built demo_removed_built demo_cluster_owns_A demo_removed_run
      demo_removed_positions_distinct by simp
qed

theorem placement_counterexample:
  "run 1 [Add ''plumless'', Add ''buckeroo'', Add ''C'', Distribute [(''key_9'', ''v9'')]]
     = Inr collide_before
   \<and> well_formed (nodes collide_before) \<and> sorted (ring collide_before) \<and> placed collide_before
   \<and> RemoveNode ''plumless'' collide_before = Inr (collide_after, None)
   \<and> stored (nodes collide_after) ''buckeroo'' ''key_9'' = Some ''v9''
   \<and> owner collide_after ''key_9'' = ''C''
   \<and> \<not> placed collide_after"
  using collide_before_built collide_before_ok collide_before_placed collide_after_built
    owner_collide(2) collide_after_not_placed
  by (simp add: stored_def collide_after_def)


section \<open>Record counts along a sequence of calls\<close>

lemma placed_unique_keys:
  assumes "well_formed (nodes ch)" and "placed ch"
  shows "unique_keys (nodes ch)"
proof (rule unique_keysI[OF assms(1)])
  fix n n' k
  assume a: "stored (nodes ch) n k \<noteq> None" and b: "stored (nodes ch) n' k \<noteq> None"
  have P: "\<And>n k. stored (nodes ch) n k \<noteq> None \<Longrightarrow> owner ch k = n"
    using assms(2) placed_iff[OF well_formed_names[OF assms(1)]] by blast
  from P[OF a] P[OF b] show "n = n'" by simp
qed

lemma run_unique_keys:
  assumes "run vn calls = Inr ch" and "positions_distinct (call_names calls) vn"
  shows "well_formed (nodes ch) \<and> unique_keys (nodes ch)"
proof -
  let ?c0 = "NewConsistentHashing vn"
  have r: "for_each apply_call calls ?c0 = Inr ch" using assms(1) by (simp add: run_def)
  have wf0: "well_formed (nodes ?c0)"
    by (simp add: NewConsistentHashing_def well_formed_def)
  have wf: "well_formed (nodes ch)"
    using calls_ring_invariant[OF r wf0] by (simp add: NewConsistentHashing_def)
  have "placed ch" by (rule run_placed[OF assms])
  with wf show ?thesis using placed_unique_keys by blast
qed

lemma AddNode_conserves:
  assumes "well_formed (nodes ch)" and "unique_keys (nodes ch)"
    and run: "AddNode Y ch = Inr (ch', rep)"
  shows "total_records ch' = total_records ch
    \<and> well_formed (nodes ch') \<and> unique_keys (nodes ch')"
proof -
  note U = AddNode_unique[OF assms]
  have "total_records ch' = card {k. \<exists>n. stored (nodes ch') n k \<noteq> None}"
    using U by (intro total_records_card well_formed_names) simp_all
  also have "\<dots> = card {k. \<exists>n. stored (nodes ch) n k \<noteq> None}" using U by simp
  also have "\<dots> = total_records ch"
    using assms(1,2) by (intro total_records_card[symmetric] well_formed_names)
  finally show ?thesis using U by simp
qed

lemma RemoveNode_conserves:
  assumes "well_formed (nodes ch)" and "unique_keys (nodes ch)"
    and run: "RemoveNode X ch = Inr (ch', e)"
  shows "total_records ch' = total_records ch
    \<and> well_formed (nodes ch') \<and> unique_keys (nodes ch')"
proof -
  note U = RemoveNode_unique[OF assms]
  have "total_records ch' = card {k. \<exists>n. stored (nodes ch') n k \<noteq> None}"
    using U by (intro total_records_card well_formed_names) simp_all
  also have "\<dots> = card {k. \<exists>n. stored (nodes ch) n k \<noteq> None}" using U by simp
  also have "\<dots> = total_records ch"
    using assms(1,2) by (intro total_records_card[symmetric] well_formed_names)
  finally show ?thesis using U by simp
qed

text \<open>
  C3 (amended): in a cluster where no key is held by two stores, a call of \<open>AddNode\<close> or
  \<open>RemoveNode\<close> that returns leaves the sum of the store sizes unchanged, and again no
  key is held by two stores. No key is held by two stores in any state reached from
  \<open>NewConsistentHashing\<close> by a sequence of \<open>AddNode\<close> and \<open>RemoveNode\<close> calls and record
  distributions that returns, provided the virtual-node positions of the names passed to
  the calls are pairwise distinct.
\<close>

theorem records_conserved:
  "(well_formed (nodes ch) \<and> unique_keys (nodes ch) \<longrightarrow>
      (\<forall>ch' rep. AddNode Y ch = Inr (ch', rep) \<longrightarrow>
            total_records ch' = total_records ch
            \<and> well_formed (nodes ch') \<and> unique_keys (nodes ch'))
      \<and> (\<forall>ch' e. RemoveNode X ch = Inr (ch', e) \<longrightarrow>
            total_records ch' = total_records ch
            \<and> well_formed (nodes ch') \<and> unique_keys (nodes ch')))
   \<and> (run vn calls = Inr ch0 \<and> positions_distinct (call_names calls) vn \<longrightarrow>
        well_formed (nodes ch0) \<and> unique_keys (nodes ch0))"
proof (intro conjI impI allI)
  fix ch' rep
  assume a: "well_formed (nodes ch) \<and> unique_keys (nodes ch)"
    and r: "AddNode Y ch = Inr (ch', rep)"
  from a have wf: "well_formed (nodes ch)" and uk: "unique_keys (nodes ch)" by simp_all
  note C = AddNode_conserves[OF wf uk r]
  from C show "total_records ch' = total_records ch" by simp
  from C show "well_formed (nodes ch')" by simp
  from C show "unique_keys (nodes ch')" by simp
next
  fix ch' e
  assume a: "well_formed (nodes ch) \<and> unique_keys (nodes ch)"
    and r: "RemoveNode X ch = Inr (ch', e)"
  from a have wf: "well_formed (nodes ch)" and uk: "unique_keys (nodes ch)" by simp_all
  note C = RemoveNode_conserves[OF wf uk r]
  from C show "total_records ch' = total_records ch" by simp
  from C show "well_formed (nodes ch')" by simp
  from C show "unique_keys (nodes ch')" by simp
next
  assume a: "run vn calls = Inr ch0 \<and> positions_distinct (call_names calls) vn"
  then have U: "well_formed (nodes ch0) \<and> unique_keys (nodes ch0)"
    using run_unique_keys[of vn calls ch0] by simp
  from U show "well_formed (nodes ch0)" by simp
  from U show "unique_keys (nodes ch0)" by simp
qed

theorem records_conserved_witness:
  "well_formed (nodes demo_cluster) \<and> unique_keys (nodes demo_cluster)
   \<and> total_records demo_cluster = 3
   \<and> AddNode ''C'' demo_cluster = Inr (demo_added, MoveReport 1 [(''A'', 1)])
   \<and> total_records demo_added = 3
   \<and> RemoveNode ''A'' demo_cluster = Inr (demo_removed, None)
   \<and> total_records demo_removed = 3
   \<and> run 2 [Add ''A'', Add ''B'',
        Distribute [(''key_5'', ''v5''), (''key_1'', ''v1''), (''key_42'', ''v42'')],
        Remove ''A'']
     = Inr demo_removed
   \<and> positions_distinct
     (call_names [Add ''A'', Add ''B'',
        Distribute [(''key_5'', ''v5''), (''key_1'', ''v1''), (''key_42'', ''v42'')],
        Remove ''A'']) 2
   \<and> unique_keys (nodes demo_removed)"
proof -
  have h: "well_formed (nodes demo_cluster) \<and> unique_keys (nodes demo_cluster)"
    using demo_cluster_ok(1,2) by simp
  note T = records_conserved[of demo_cluster "''C''" "''A''" 2
      "[Add ''A'', Add ''B'',
        Distribute [(''key_5'', ''v5''), (''key_1'', ''v1''), (''key_42'', ''v42'')],
        Remove ''A'']" demo_removed]
  note S = T[THEN conjunct1, rule_format, OF h]
  have t: "total_records demo_cluster = 3" by (simp add: total_records_def demo_cluster_def)
  have a: "total_records demo_added = total_records demo_cluster"
    using S[THEN conjunct1, rule_format, OF demo_added_built] by simp
  have r: "total_records demo_removed = total_records demo_cluster"
    using S[THEN conjunct2, rule_format, OF demo_removed_built] by simp
  have u: "unique_keys (nodes demo_removed)"
    using T[THEN conjunct2, rule_format] demo_removed_run demo_removed_positions_distinct
    by simp
  show ?thesis
    using a r t u h demo_added_built demo_removed_built demo_removed_run
      demo_removed_positions_distinct by simp
qed

theorem records_merged_counterexample:
  "run 1 [Add ''plumless'', Add ''buckeroo'', Add ''C'', Distribute [(''key_9'', ''v9'')],
        Remove ''plumless'', Distribute [(''key_9'', ''v9'')]]
     = Inr dup_state
   \<and> well_formed (nodes dup_state)
   \<and> total_records dup_state = 2
   \<and> AddNode ''plumless'' dup_state =
       Inr (dup_merged, MoveReport 2 [(''buckeroo'', 1), (''C'', 1)])
   \<and> total_records dup_merged = 1"
  using dup_state_run dup_merged_built
  by (simp add: total_records_def well_formed_def dup_state_def dup_merged_def)


end
